theory Spec2Isabelle
  imports Complex_Main "HOL-Library.Word" "HOL-Library.Monad_Syntax"
begin

section \<open>Values of type double\<close>

text \<open>
  A C \<^verbatim>\<open>double\<close> is an IEEE 754 binary64 number: a finite value, one of the two
  infinities, or a NaN. A finite value is read as the real number it denotes. Every
  arithmetic operation computes the exact real result and rounds it to the nearest
  binary64 number, ties to the even significand, and gives an infinity when the rounded
  magnitude reaches \<open>2 ^ 1024\<close>; each operation of the source is one such rounding (no
  extended precision, no fused multiply-add). The two zeros are one value here: the
  library never divides by a zero and never inspects a sign bit.

  \<open>rne\<close> rounds a real to the nearest integer, ties to even. \<open>binade x\<close> is the exponent
  of the binade of \<open>x\<close>, held at \<open>-1022\<close> in the subnormal range, so that
  \<open>2 powi (binade x - 52)\<close> is the spacing of the binary64 numbers around \<open>x\<close>.
\<close>

datatype double = Fin real | PInf | NInf | NaN

definition rne :: "real \<Rightarrow> int" where
  "rne x = (let f = \<lfloor>x\<rfloor>; d = x - of_int f in
            if d < 1 / 2 then f else if 1 / 2 < d then f + 1 else if even f then f else f + 1)"

definition binade :: "real \<Rightarrow> int" where
  "binade x = max \<lfloor>log 2 \<bar>x\<bar>\<rfloor> (- 1022)"

definition round_double :: "real \<Rightarrow> double" where
  "round_double x = (if x = 0 then Fin 0 else
     let u = 2 powi (binade x - 52); y = of_int (rne (x / u)) * u in
     if 2 ^ 1024 \<le> \<bar>y\<bar> then (if 0 < x then PInf else NInf) else Fin y)"

text \<open>
  The special values follow IEEE 754: a NaN operand gives NaN, \<open>\<infinity> - \<infinity>\<close>, \<open>0 * \<infinity>\<close>,
  \<open>0 / 0\<close> and \<open>\<infinity> / \<infinity>\<close> are NaN, and every comparison with a NaN is false.
\<close>

instantiation double :: "{zero, plus, uminus, minus, times, ord}"
begin

definition zero_double :: double where
  "zero_double = Fin 0"

fun plus_double :: "double \<Rightarrow> double \<Rightarrow> double" where
  "plus_double (Fin a) (Fin b) = round_double (a + b)"
| "plus_double NaN _ = NaN"
| "plus_double _ NaN = NaN"
| "plus_double PInf NInf = NaN"
| "plus_double NInf PInf = NaN"
| "plus_double PInf _ = PInf"
| "plus_double _ PInf = PInf"
| "plus_double NInf _ = NInf"
| "plus_double _ NInf = NInf"

fun uminus_double :: "double \<Rightarrow> double" where
  "uminus_double (Fin a) = Fin (- a)"
| "uminus_double PInf = NInf"
| "uminus_double NInf = PInf"
| "uminus_double NaN = NaN"

definition minus_double :: "double \<Rightarrow> double \<Rightarrow> double" where
  "minus_double x y = x + (- y)"

fun times_double :: "double \<Rightarrow> double \<Rightarrow> double" where
  "times_double (Fin a) (Fin b) = round_double (a * b)"
| "times_double NaN _ = NaN"
| "times_double _ NaN = NaN"
| "times_double PInf (Fin b) = (if b = 0 then NaN else if 0 < b then PInf else NInf)"
| "times_double NInf (Fin b) = (if b = 0 then NaN else if 0 < b then NInf else PInf)"
| "times_double (Fin a) PInf = (if a = 0 then NaN else if 0 < a then PInf else NInf)"
| "times_double (Fin a) NInf = (if a = 0 then NaN else if 0 < a then NInf else PInf)"
| "times_double PInf PInf = PInf"
| "times_double NInf NInf = PInf"
| "times_double PInf NInf = NInf"
| "times_double NInf PInf = NInf"

fun less_double :: "double \<Rightarrow> double \<Rightarrow> bool" where
  "less_double (Fin a) (Fin b) = (a < b)"
| "less_double NaN _ = False"
| "less_double _ NaN = False"
| "less_double PInf _ = False"
| "less_double _ NInf = False"
| "less_double NInf _ = True"
| "less_double _ PInf = True"

fun less_eq_double :: "double \<Rightarrow> double \<Rightarrow> bool" where
  "less_eq_double (Fin a) (Fin b) = (a \<le> b)"
| "less_eq_double NaN _ = False"
| "less_eq_double _ NaN = False"
| "less_eq_double NInf _ = True"
| "less_eq_double _ PInf = True"
| "less_eq_double PInf _ = False"
| "less_eq_double _ NInf = False"

instance ..

end

text \<open>Division; a zero divisor is taken as \<open>+0\<close>.\<close>

fun ddiv :: "double \<Rightarrow> double \<Rightarrow> double" where
  "ddiv (Fin a) (Fin b) =
     (if b = 0 then (if a = 0 then NaN else if 0 < a then PInf else NInf)
      else round_double (a / b))"
| "ddiv NaN _ = NaN"
| "ddiv _ NaN = NaN"
| "ddiv (Fin a) _ = Fin 0"
| "ddiv PInf (Fin b) = (if 0 \<le> b then PInf else NInf)"
| "ddiv NInf (Fin b) = (if 0 \<le> b then NInf else PInf)"
| "ddiv _ _ = NaN"

text \<open>
  The functions of \<^verbatim>\<open>math.h\<close> that the library calls. \<^verbatim>\<open>sqrt\<close> is correctly rounded,
  as IEEE 754 requires.
\<close>

fun isfinite :: "double \<Rightarrow> bool" where
  "isfinite (Fin a) = True"
| "isfinite _ = False"

fun dsqrt :: "double \<Rightarrow> double" where
  "dsqrt (Fin a) = (if a < 0 then NaN else round_double (sqrt a))"
| "dsqrt PInf = PInf"
| "dsqrt _ = NaN"

fun fabs :: "double \<Rightarrow> double" where
  "fabs (Fin a) = Fin \<bar>a\<bar>"
| "fabs PInf = PInf"
| "fabs NInf = PInf"
| "fabs NaN = NaN"

text \<open>
  \<^verbatim>\<open>log\<close> is the one of the platform's C library, which need not round correctly. The
  routines that call it take it as the argument \<open>lg\<close>; \<open>c_log\<close> says what C (Annex F)
  fixes of it, and \<open>dlog\<close> is the correctly rounded logarithm, one such function.
\<close>

definition c_log :: "(double \<Rightarrow> double) \<Rightarrow> bool" where
  "c_log lg = (lg (Fin 1) = Fin 0 \<and> lg (Fin 0) = NInf \<and> lg PInf = PInf \<and>
               lg NInf = NaN \<and> lg NaN = NaN \<and> (\<forall>a. a < 0 \<longrightarrow> lg (Fin a) = NaN))"

fun dlog :: "double \<Rightarrow> double" where
  "dlog (Fin a) = (if a < 0 then NaN else if a = 0 then NInf else round_double (ln a))"
| "dlog PInf = PInf"
| "dlog _ = NaN"

text \<open>The conversion \<^verbatim>\<open>(double)n\<close> of a \<^verbatim>\<open>size_t\<close>.\<close>

definition double_of_size :: "nat \<Rightarrow> double" where
  "double_of_size n = round_double (real n)"

text \<open>\<^verbatim>\<open>#define HIL_EPS 1e-12\<close>: the binary64 number nearest to the decimal literal.\<close>

definition HIL_EPS :: double where
  "HIL_EPS = round_double (1 / 10 ^ 12)"

section \<open>Buffers and loops\<close>

text \<open>
  A buffer is the list of its cells. C does not check an index: reading or writing a cell
  outside the buffer is undefined behaviour, which the model makes the result \<open>None\<close>.
  Every routine that touches a buffer therefore returns an option, and \<open>None\<close> never
  stands for a value the C code returns.
\<close>

definition rd :: "'a list \<Rightarrow> nat \<Rightarrow> 'a option" where
  "rd xs i = (if i < length xs then Some (xs ! i) else None)"

definition wr :: "'a list \<Rightarrow> nat \<Rightarrow> 'a \<Rightarrow> 'a list option" where
  "wr xs i v = (if i < length xs then Some (xs[i := v]) else None)"

text \<open>
  \<^verbatim>\<open>for (size_t i = lo; i < hi; i++) body\<close> runs the body at \<open>[lo..<hi]\<close> in order, on
  the variables the body assigns, and stops at undefined behaviour.
\<close>

primrec for_each :: "nat list \<Rightarrow> (nat \<Rightarrow> 's \<Rightarrow> 's option) \<Rightarrow> 's \<Rightarrow> 's option" where
  "for_each [] body s = Some s"
| "for_each (i # ixs) body s =
     (case body i s of None \<Rightarrow> None | Some s' \<Rightarrow> for_each ixs body s')"

section \<open>hilbert\_math.c\<close>

definition hil_clamp_min :: "double \<Rightarrow> double \<Rightarrow> double" where
  "hil_clamp_min x m = (if x < m then m else x)"

definition hil_safe_log :: "(double \<Rightarrow> double) \<Rightarrow> double \<Rightarrow> double" where
  "hil_safe_log lg x = lg (hil_clamp_min x HIL_EPS)"

definition hil_vec_dot :: "double list \<Rightarrow> double list \<Rightarrow> nat \<Rightarrow> double option" where
  "hil_vec_dot a b n =
     for_each [0..<n] (\<lambda>i s. do { x \<leftarrow> rd a i; y \<leftarrow> rd b i; Some (s + x * y) }) 0"

definition hil_vec_norm :: "double list \<Rightarrow> nat \<Rightarrow> double option" where
  "hil_vec_norm a n =
     do { s \<leftarrow> for_each [0..<n] (\<lambda>i s. do { x \<leftarrow> rd a i; Some (s + x * x) }) 0;
          Some (dsqrt s) }"

definition hil_vec_zero :: "double list \<Rightarrow> nat \<Rightarrow> double list option" where
  "hil_vec_zero dst n = for_each [0..<n] (\<lambda>i dst. wr dst i 0) dst"

definition hil_vec_add_inplace :: "double list \<Rightarrow> double list \<Rightarrow> nat \<Rightarrow> double list option" where
  "hil_vec_add_inplace dst src n =
     for_each [0..<n] (\<lambda>i dst. do { x \<leftarrow> rd dst i; y \<leftarrow> rd src i; wr dst i (x + y) }) dst"

definition hil_vec_scale_inplace :: "double list \<Rightarrow> nat \<Rightarrow> double \<Rightarrow> double list option" where
  "hil_vec_scale_inplace dst n k =
     for_each [0..<n] (\<lambda>i dst. do { x \<leftarrow> rd dst i; wr dst i (x * k) }) dst"

definition hil_det_sign :: "nat \<Rightarrow> double" where
  "hil_det_sign idx = (if and idx 1 \<noteq> 0 then Fin (- 1) else Fin 1)"

section \<open>The binary64 numbers\<close>


definition nearest :: "real \<Rightarrow> real" where
  "nearest x = of_int (rne (x / 2 powi (binade x - 52))) * 2 powi (binade x - 52)"

text \<open>A sum accumulated from \<^verbatim>\<open>0.0\<close> in the order of the list, each addition rounded.\<close>

definition accumulate :: "double list \<Rightarrow> double" where
  "accumulate xs = foldl (+) 0 xs"


text \<open>A finite double between two powers of two.\<close>

definition between :: "int \<Rightarrow> int \<Rightarrow> double \<Rightarrow> bool" where
  "between a b x = (\<exists>y. x = Fin y \<and> 2 powi a \<le> y \<and> y \<le> 2 powi b)"

section \<open>The store\<close>

text \<open>
  A pointer held in a structure is an address of the store or null (\<open>None\<close>). The store
  maps an address to the buffer that lives there: \<^verbatim>\<open>uint32_t\<close> buffers and
  \<^verbatim>\<open>double\<close> buffers are kept apart, as the pointer types keep them apart. Addresses
  from \<open>brk\<close> on have never been handed out. \<open>outcomes\<close> lists the results of the coming
  allocation requests (\<open>True\<close>: the request succeeds); a request beyond the list succeeds.

  A pointer passed to a routine as a buffer argument (\<^verbatim>\<open>double *dst\<close>) is modelled by
  the cells from that pointer on, and the routine returns the cells as it leaves them.
  A buffer that a routine allocates, uses and frees itself is a local list; its
  allocation only asks for an outcome.

  \<^verbatim>\<open>size_t\<close> has 64 bits. The byte count of an allocation request is computed
  as the code computes it, modulo \<open>2 ^ 64\<close>. Counters and indices of type \<^verbatim>\<open>size_t\<close>
  are natural numbers: they count cells and edges of buffers that exist.
\<close>

type_synonym addr = nat
type_synonym ptr = "addr option"

record memory =
  u32_cells :: "addr \<Rightarrow> 32 word list option"
  f64_cells :: "addr \<Rightarrow> double list option"
  brk :: addr
  outcomes :: "bool list"

datatype 'a arg = Null | Cells "'a list"

fun cells_of :: "'a arg \<Rightarrow> 'a list" where
  "cells_of Null = []"
| "cells_of (Cells xs) = xs"

definition size_mul :: "nat \<Rightarrow> nat \<Rightarrow> nat" where
  "size_mul a b = (a * b) mod 2 ^ 64"

definition size_add :: "nat \<Rightarrow> nat \<Rightarrow> nat" where
  "size_add a b = (a + b) mod 2 ^ 64"

definition load_u32 :: "memory \<Rightarrow> ptr \<Rightarrow> nat \<Rightarrow> 32 word option" where
  "load_u32 m p i =
     (case p of None \<Rightarrow> None
      | Some a \<Rightarrow> (case u32_cells m a of None \<Rightarrow> None | Some xs \<Rightarrow> rd xs i))"

definition load_f64 :: "memory \<Rightarrow> ptr \<Rightarrow> nat \<Rightarrow> double option" where
  "load_f64 m p i =
     (case p of None \<Rightarrow> None
      | Some a \<Rightarrow> (case f64_cells m a of None \<Rightarrow> None | Some xs \<Rightarrow> rd xs i))"

text \<open>The outcome of one allocation request.\<close>

definition alloc_ok :: "memory \<Rightarrow> bool \<times> memory" where
  "alloc_ok m = (case outcomes m of [] \<Rightarrow> (True, m) | b # bs \<Rightarrow> (b, m\<lparr>outcomes := bs\<rparr>))"

text \<open>
  \<^verbatim>\<open>malloc(bytes)\<close> and \<^verbatim>\<open>calloc(n, size)\<close> for a local buffer of cells of \<open>sz\<close>
  bytes. What \<^verbatim>\<open>malloc\<close> returns holds indeterminate values: every cell is \<open>junk\<close>.
  \<^verbatim>\<open>calloc\<close> refuses a request whose byte count overflows.
\<close>

definition malloc_cells :: "memory \<Rightarrow> nat \<Rightarrow> nat \<Rightarrow> 'a \<Rightarrow> 'a list option \<times> memory" where
  "malloc_cells m bytes sz junk =
     (case alloc_ok m of
        (True, m') \<Rightarrow> (Some (replicate (bytes div sz) junk), m')
      | (False, m') \<Rightarrow> (None, m'))"




text \<open>\<^verbatim>\<open>malloc\<close>, \<^verbatim>\<open>memcpy\<close> and \<^verbatim>\<open>free\<close> on buffers of the store.\<close>

definition malloc_f64 :: "memory \<Rightarrow> nat \<Rightarrow> ptr \<times> memory" where
  "malloc_f64 m bytes =
     (case alloc_ok m of
        (True, m') \<Rightarrow>
          (Some (brk m'),
           m'\<lparr>f64_cells := (f64_cells m')(brk m' \<mapsto> replicate (bytes div 8) NaN),
              brk := brk m' + 1\<rparr>)
      | (False, m') \<Rightarrow> (None, m'))"

definition memcpy_f64 :: "memory \<Rightarrow> ptr \<Rightarrow> ptr \<Rightarrow> nat \<Rightarrow> memory option" where
  "memcpy_f64 m to from bytes =
     (case (to, from) of
        (Some a, Some b) \<Rightarrow>
          (case (f64_cells m a, f64_cells m b) of
             (Some d, Some s) \<Rightarrow>
               if a \<noteq> b \<and> bytes div 8 \<le> length d \<and> bytes div 8 \<le> length s
               then Some (m\<lparr>f64_cells := (f64_cells m)
                              (a \<mapsto> take (bytes div 8) s @ drop (bytes div 8) d)\<rparr>)
               else None
           | _ \<Rightarrow> None)
      | _ \<Rightarrow> None)"

definition free_f64 :: "memory \<Rightarrow> ptr \<Rightarrow> memory option" where
  "free_f64 m p =
     (case p of None \<Rightarrow> Some m
      | Some a \<Rightarrow>
          if f64_cells m a = None then None
          else Some (m\<lparr>f64_cells := (f64_cells m)(a := None)\<rparr>))"

definition free_u32 :: "memory \<Rightarrow> ptr \<Rightarrow> memory option" where
  "free_u32 m p =
     (case p of None \<Rightarrow> Some m
      | Some a \<Rightarrow>
          if u32_cells m a = None then None
          else Some (m\<lparr>u32_cells := (u32_cells m)(a := None)\<rparr>))"

section \<open>hilbert\_native.h: the structures\<close>

record hil_matrix =
  data :: ptr
  rows :: nat
  cols :: nat

record hil_graph =
  num_nodes :: nat
  num_edges :: nat
  src :: ptr
  dst :: ptr
  weight :: ptr

record hil_field =
  coordinates :: hil_matrix

section \<open>Graph integrity and basic structure\<close>

text \<open>
  \<^verbatim>\<open>hil_graph_validate\<close>: the loop over the edges leaves the function at the first
  edge it rejects.
\<close>

function validate_edges :: "memory \<Rightarrow> hil_graph \<Rightarrow> nat \<Rightarrow> int option" where
  "validate_edges m g e =
     (if e < num_edges g then
        do { s \<leftarrow> load_u32 m (src g) e;
             d \<leftarrow> load_u32 m (dst g) e;
             if num_nodes g \<le> unat s then Some 0
             else if num_nodes g \<le> unat d then Some 0
             else do { w \<leftarrow> load_f64 m (weight g) e;
                       if \<not> isfinite w then Some 0
                       else if w < 0 then Some 0
                       else validate_edges m g (e + 1) } }
      else Some 1)"
  by pat_completeness auto
termination
  by (relation "measure (\<lambda>(m, g, e). num_edges g - e)") auto

definition hil_graph_validate :: "memory \<Rightarrow> hil_graph option \<Rightarrow> int option" where
  "hil_graph_validate m graph =
     (case graph of None \<Rightarrow> Some 0
      | Some g \<Rightarrow>
          if num_nodes g = 0 then Some 0
          else if 0 < num_edges g \<and> (src g = None \<or> dst g = None \<or> weight g = None)
          then Some 0
          else validate_edges m g 0)"

text \<open>\<^verbatim>\<open>hil_graph_degree\<close>: the body of the loop over the edges, then the function.\<close>

definition degree_edge :: "memory \<Rightarrow> hil_graph \<Rightarrow> nat \<Rightarrow> double list \<Rightarrow> double list option" where
  "degree_edge m g e out =
     do { s \<leftarrow> load_u32 m (src g) e;
          d \<leftarrow> load_u32 m (dst g) e;
          w \<leftarrow> load_f64 m (weight g) e;
          x \<leftarrow> rd out (unat s);
          out \<leftarrow> wr out (unat s) (x + w);
          y \<leftarrow> rd out (unat d);
          wr out (unat d) (y + w) }"

definition hil_graph_degree ::
  "memory \<Rightarrow> hil_graph option \<Rightarrow> double arg \<Rightarrow> double arg option" where
  "hil_graph_degree m graph out_degree =
     (case (graph, out_degree) of
        (Some g, Cells out) \<Rightarrow>
          do { out \<leftarrow> for_each [0..<num_nodes g] (\<lambda>i out. wr out i 0) out;
               out \<leftarrow> for_each [0..<num_edges g] (degree_edge m g) out;
               Some (Cells out) }
      | _ \<Rightarrow> Some out_degree)"

section \<open>Structural diagnostics\<close>

text \<open>\<^verbatim>\<open>hil_graph_entropy\<close>\<close>

definition entropy_term ::
  "(double \<Rightarrow> double) \<Rightarrow> double list \<Rightarrow> double \<Rightarrow> nat \<Rightarrow> double \<Rightarrow> double option" where
  "entropy_term lg deg sum_deg i H =
     do { x \<leftarrow> rd deg i;
          let p = ddiv x sum_deg in
          if HIL_EPS < p then Some (H - p * hil_safe_log lg p) else Some H }"

definition hil_graph_entropy ::
  "(double \<Rightarrow> double) \<Rightarrow> memory \<Rightarrow> hil_graph option \<Rightarrow> (double \<times> memory) option" where
  "hil_graph_entropy lg m graph =
     (case graph of None \<Rightarrow> Some (0, m)
      | Some g \<Rightarrow>
          if num_nodes g = 0 then Some (0, m)
          else
            (case malloc_cells m (size_mul 8 (num_nodes g)) 8 NaN of
               (None, m') \<Rightarrow> Some (0, m')
             | (Some deg, m') \<Rightarrow>
                 do { out \<leftarrow> hil_graph_degree m' graph (Cells deg);
                      let deg = cells_of out in
                      do { sum_deg \<leftarrow> for_each [0..<num_nodes g]
                                        (\<lambda>i s. do { x \<leftarrow> rd deg i; Some (s + x) }) 0;
                           if sum_deg \<le> HIL_EPS then Some (0, m')
                           else do { H \<leftarrow> for_each [0..<num_nodes g]
                                              (entropy_term lg deg sum_deg) 0;
                                     Some (H, m') } } }))"














section \<open>Field diagnostics\<close>

text \<open>\<^verbatim>\<open>M.data + (r * M.cols)\<close>: the cells of the buffer from row \<open>r\<close> on.\<close>

definition row_at :: "double list \<Rightarrow> nat \<Rightarrow> nat \<Rightarrow> double list" where
  "row_at cells r n = drop (size_mul r n) cells"

text \<open>
  \<^verbatim>\<open>hil_field_coherence\<close>: the body of its second loop, the computation on the cells
  of the field once the centroid buffer is there, then the function.
\<close>

definition cosine_term ::
  "double list \<Rightarrow> double list \<Rightarrow> nat \<Rightarrow> double \<Rightarrow> nat \<Rightarrow> double \<Rightarrow> double option" where
  "cosine_term cells centroid n c_norm r sum_cos =
     do { rn \<leftarrow> hil_vec_norm (row_at cells r n) n;
          let r_norm = hil_clamp_min rn HIL_EPS in
          do { dot \<leftarrow> hil_vec_dot (row_at cells r n) centroid n;
               Some (sum_cos + ddiv dot (r_norm * c_norm)) } }"

definition coherence_rows :: "double list \<Rightarrow> nat \<Rightarrow> nat \<Rightarrow> double list \<Rightarrow> double option" where
  "coherence_rows cells nr nc centroid =
     do { centroid \<leftarrow> hil_vec_zero centroid nc;
          centroid \<leftarrow> for_each [0..<nr]
                        (\<lambda>r centroid. hil_vec_add_inplace centroid (row_at cells r nc) nc)
                        centroid;
          centroid \<leftarrow> hil_vec_scale_inplace centroid nc (ddiv (Fin 1) (double_of_size nr));
          cn \<leftarrow> hil_vec_norm centroid nc;
          sum_cos \<leftarrow> for_each [0..<nr]
                       (cosine_term cells centroid nc (hil_clamp_min cn HIL_EPS)) 0;
          Some (ddiv sum_cos (double_of_size nr)) }"

definition hil_field_coherence :: "memory \<Rightarrow> hil_field option \<Rightarrow> (double \<times> memory) option" where
  "hil_field_coherence m field =
     (case field of None \<Rightarrow> Some (0, m)
      | Some f \<Rightarrow>
          let M = coordinates f in
          if data M = None \<or> rows M = 0 \<or> cols M = 0 then Some (0, m)
          else
            (case malloc_cells m (size_mul 8 (cols M)) 8 NaN of
               (None, m') \<Rightarrow> Some (0, m')
             | (Some centroid, m') \<Rightarrow>
                 do { cells \<leftarrow> (case data M of None \<Rightarrow> None | Some a \<Rightarrow> f64_cells m' a);
                      c \<leftarrow> coherence_rows cells (rows M) (cols M) centroid;
                      Some (c, m') }))"

section \<open>Structural perturbation\<close>

text \<open>\<^verbatim>\<open>hil_field_perturb\<close>: the body of the loop over the rows, then the function.\<close>

definition perturb_row :: "double \<Rightarrow> nat \<Rightarrow> nat \<Rightarrow> double list \<Rightarrow> double list option" where
  "perturb_row epsilon n r cells =
     do { row \<leftarrow> for_each [0..<n]
                  (\<lambda>c row. do { x \<leftarrow> rd row c;
                                wr row c (x + epsilon * hil_det_sign (size_add (size_mul r n) c)) })
                  (row_at cells r n);
          nrm \<leftarrow> hil_vec_norm row n;
          row \<leftarrow> (if HIL_EPS < nrm then hil_vec_scale_inplace row n (ddiv (Fin 1) nrm)
                  else Some row);
          Some (take (size_mul r n) cells @ row) }"

definition hil_field_perturb :: "memory \<Rightarrow> hil_field option \<Rightarrow> double \<Rightarrow> memory option" where
  "hil_field_perturb m field epsilon =
     (case field of None \<Rightarrow> Some m
      | Some f \<Rightarrow>
          let M = coordinates f in
          (case data M of None \<Rightarrow> Some m
           | Some a \<Rightarrow>
               if rows M = 0 \<or> cols M = 0 then Some m
               else
                 do { cells \<leftarrow> f64_cells m a;
                      cells \<leftarrow> for_each [0..<rows M] (perturb_row epsilon (cols M)) cells;
                      Some (m\<lparr>f64_cells := (f64_cells m)(a \<mapsto> cells)\<rparr>) }))"

section \<open>Memory management helpers\<close>

definition hil_matrix_free ::
  "memory \<Rightarrow> hil_matrix option \<Rightarrow> (memory \<times> hil_matrix option) option" where
  "hil_matrix_free m mat =
     (case mat of None \<Rightarrow> Some (m, None)
      | Some M \<Rightarrow>
          do { m' \<leftarrow> free_f64 m (data M);
               Some (m', Some (M\<lparr>data := None, rows := 0, cols := 0\<rparr>)) })"

definition hil_graph_free ::
  "memory \<Rightarrow> hil_graph option \<Rightarrow> (memory \<times> hil_graph option) option" where
  "hil_graph_free m graph =
     (case graph of None \<Rightarrow> Some (m, None)
      | Some g \<Rightarrow>
          do { m1 \<leftarrow> free_u32 m (src g);
               m2 \<leftarrow> free_u32 m1 (dst g);
               m3 \<leftarrow> free_f64 m2 (weight g);
               Some (m3, Some (g\<lparr>src := None, dst := None, weight := None,
                                 num_nodes := 0, num_edges := 0\<rparr>)) })"

definition hil_field_free ::
  "memory \<Rightarrow> hil_field option \<Rightarrow> (memory \<times> hil_field option) option" where
  "hil_field_free m field =
     (case field of None \<Rightarrow> Some (m, None)
      | Some f \<Rightarrow>
          do { (m', M') \<leftarrow> hil_matrix_free m (Some (coordinates f));
               Some (m', map_option (\<lambda>M. f\<lparr>coordinates := M\<rparr>) M') })"

section \<open>Epistemic stability\<close>

text \<open>\<^verbatim>\<open>const double eps = 1e-6\<close>\<close>

definition stability_eps :: double where
  "stability_eps = round_double (1 / 10 ^ 6)"

definition hil_epistemic_stability ::
  "memory \<Rightarrow> hil_field option \<Rightarrow> hil_graph option \<Rightarrow> (double \<times> memory) option" where
  "hil_epistemic_stability m field graph =
     (case field of None \<Rightarrow> Some (0, m)
      | Some f \<Rightarrow>
          do { (C0, m1) \<leftarrow> hil_field_coherence m field;
               let M = coordinates f in
               if data M = None \<or> rows M = 0 \<or> cols M = 0 then Some (0, m1)
               else
                 (case malloc_f64 m1 (size_mul (size_mul 8 (rows M)) (cols M)) of
                    (None, m2) \<Rightarrow> Some (0, m2)
                  | (Some t, m2) \<Rightarrow>
                      let tmp = \<lparr>coordinates = \<lparr>data = Some t, rows = rows M, cols = cols M\<rparr>\<rparr> in
                      do { m3 \<leftarrow> memcpy_f64 m2 (Some t) (data M)
                                   (size_mul (size_mul 8 (rows M)) (cols M));
                           m4 \<leftarrow> hil_field_perturb m3 (Some tmp) stability_eps;
                           (C1, m5) \<leftarrow> hil_field_coherence m4 (Some tmp);
                           (m6, tmp') \<leftarrow> hil_field_free m5 (Some tmp);
                           Some (ddiv (fabs (C1 - C0)) stability_eps, m6) }) })"

section \<open>What a caller owes the library\<close>

text \<open>An edge array that is not null is a live buffer of at least \<open>n\<close> cells.\<close>

definition readable_u32 :: "memory \<Rightarrow> ptr \<Rightarrow> nat \<Rightarrow> bool" where
  "readable_u32 m p n =
     (case p of None \<Rightarrow> True
      | Some a \<Rightarrow> (case u32_cells m a of None \<Rightarrow> False | Some xs \<Rightarrow> n \<le> length xs))"

definition readable_f64 :: "memory \<Rightarrow> ptr \<Rightarrow> nat \<Rightarrow> bool" where
  "readable_f64 m p n =
     (case p of None \<Rightarrow> True
      | Some a \<Rightarrow> (case f64_cells m a of None \<Rightarrow> False | Some xs \<Rightarrow> n \<le> length xs))"

definition graph_readable :: "memory \<Rightarrow> hil_graph \<Rightarrow> bool" where
  "graph_readable m g =
     (readable_u32 m (src g) (num_edges g) \<and> readable_u32 m (dst g) (num_edges g) \<and>
      readable_f64 m (weight g) (num_edges g))"

text \<open>The edge \<open>e\<close> has an endpoint outside the nodes, or a weight that is negative or not finite.\<close>

definition bad_edge :: "memory \<Rightarrow> hil_graph \<Rightarrow> nat \<Rightarrow> bool" where
  "bad_edge m g e =
     (case (load_u32 m (src g) e, load_u32 m (dst g) e, load_f64 m (weight g) e) of
        (Some s, Some d, Some w) \<Rightarrow>
          num_nodes g \<le> unat s \<or> num_nodes g \<le> unat d \<or> w < 0 \<or> \<not> isfinite w
      | _ \<Rightarrow> False)"

text \<open>The graphs that validation is said to reject.\<close>

definition rejected :: "memory \<Rightarrow> hil_graph option \<Rightarrow> bool" where
  "rejected m graph =
     (case graph of None \<Rightarrow> True
      | Some g \<Rightarrow>
          num_nodes g = 0 \<or>
          (0 < num_edges g \<and> (src g = None \<or> dst g = None \<or> weight g = None)) \<or>
          (\<exists>e<num_edges g. bad_edge m g e))"








text \<open>A pointer that may be handed to \<^verbatim>\<open>free\<close>: null, or the address of a live buffer.\<close>

definition live_u32 :: "memory \<Rightarrow> ptr \<Rightarrow> bool" where
  "live_u32 m p = (case p of None \<Rightarrow> True | Some a \<Rightarrow> u32_cells m a \<noteq> None)"

definition live_f64 :: "memory \<Rightarrow> ptr \<Rightarrow> bool" where
  "live_f64 m p = (case p of None \<Rightarrow> True | Some a \<Rightarrow> f64_cells m a \<noteq> None)"

text \<open>A graph owns its three arrays: each may be freed, and the two index arrays are not the same buffer.\<close>

definition graph_owned :: "memory \<Rightarrow> hil_graph \<Rightarrow> bool" where
  "graph_owned m g =
     (live_u32 m (src g) \<and> live_u32 m (dst g) \<and> live_f64 m (weight g) \<and>
      (src g = None \<or> src g \<noteq> dst g))"

text \<open>
  The coordinates of a field can be read: \<open>data\<close> is a live buffer of at least
  \<open>rows * cols\<close> cells, and the buffer fits the address space.
\<close>

definition field_cells :: "memory \<Rightarrow> hil_field \<Rightarrow> double list option" where
  "field_cells m f = (case data (coordinates f) of None \<Rightarrow> None | Some a \<Rightarrow> f64_cells m a)"

definition field_readable :: "memory \<Rightarrow> hil_field \<Rightarrow> bool" where
  "field_readable m f =
     (case field_cells m f of None \<Rightarrow> False
      | Some cells \<Rightarrow>
          rows (coordinates f) * cols (coordinates f) \<le> length cells \<and>
          8 * length cells < 2 ^ 64)"

text \<open>Every coming allocation request succeeds.\<close>

definition allocations_succeed :: "memory \<Rightarrow> bool" where
  "allocations_succeed m = list_all (\<lambda>b. b) (outcomes m)"

section \<open>Connected components of the edge list\<close>







text \<open>
  The adjacency entries of node \<open>v\<close> in the order the second pass writes them: an edge
  \<open>(s, d)\<close> in range adds \<open>d\<close> to the entries of \<open>s\<close>, then \<open>s\<close> to the entries of \<open>d\<close>.
\<close>

definition contrib :: "nat \<Rightarrow> nat \<Rightarrow> 32 word \<times> 32 word \<Rightarrow> 32 word list" where
  "contrib n v = (\<lambda>(s, d).
     if unat s < n \<and> unat d < n
     then (if unat s = v then [d] else []) @ (if unat d = v then [s] else [])
     else [])"

definition nbrs :: "nat \<Rightarrow> (32 word \<times> 32 word) list \<Rightarrow> nat \<Rightarrow> 32 word list" where
  "nbrs n ends v = concat (map (contrib n v) ends)"

definition off :: "nat \<Rightarrow> (32 word \<times> 32 word) list \<Rightarrow> nat \<Rightarrow> nat" where
  "off n ends i = (\<Sum>v<i. length (nbrs n ends v))"



text \<open>The adjacency relation the buffer represents: \<open>v\<close> has the entry \<open>u\<close>.\<close>

definition adj_rel :: "nat \<Rightarrow> (32 word \<times> 32 word) list \<Rightarrow> (nat \<times> nat) set" where
  "adj_rel n ends = {(v, unat u) | v u. v < n \<and> u \<in> set (nbrs n ends v)}"



section \<open>The values the field routines compute\<close>

text \<open>
  The cell of row \<open>r\<close> and column \<open>c\<close> of a row-major buffer of \<open>nc\<close> columns, the centroid
  of the first \<open>nr\<close> rows, the Euclidean norm of a vector of \<open>n\<close> entries, and the mean
  cosine of the rows to the centroid with both norms clamped from below.
\<close>

definition cell :: "double list \<Rightarrow> nat \<Rightarrow> nat \<Rightarrow> nat \<Rightarrow> double" where
  "cell cells nc r c = cells ! (r * nc + c)"

definition centroid_of :: "double list \<Rightarrow> nat \<Rightarrow> nat \<Rightarrow> nat \<Rightarrow> double" where
  "centroid_of cells nr nc c =
     accumulate (map (\<lambda>r. cell cells nc r c) [0..<nr]) * ddiv (Fin 1) (double_of_size nr)"

definition norm_of :: "(nat \<Rightarrow> double) \<Rightarrow> nat \<Rightarrow> double" where
  "norm_of v n = dsqrt (accumulate (map (\<lambda>i. v i * v i) [0..<n]))"

definition cosine_of :: "double list \<Rightarrow> nat \<Rightarrow> nat \<Rightarrow> nat \<Rightarrow> double" where
  "cosine_of cells nr nc r =
     ddiv (accumulate (map (\<lambda>c. cell cells nc r c * centroid_of cells nr nc c) [0..<nc]))
          (hil_clamp_min (norm_of (cell cells nc r) nc) HIL_EPS *
           hil_clamp_min (norm_of (centroid_of cells nr nc) nc) HIL_EPS)"

definition coherence_value :: "double list \<Rightarrow> nat \<Rightarrow> nat \<Rightarrow> double" where
  "coherence_value cells nr nc =
     ddiv (accumulate (map (cosine_of cells nr nc) [0..<nr])) (double_of_size nr)"

text \<open>
  The perturbation in the words of its description: add \<open>epsilon\<close> times the sign of the
  flattened index to every coordinate, then rescale the row by the inverse of its norm
  when that norm exceeds \<open>HIL_EPS\<close>.
\<close>

definition perturbed_row :: "double \<Rightarrow> nat \<Rightarrow> double list \<Rightarrow> nat \<Rightarrow> double list" where
  "perturbed_row epsilon nc cells r =
     map (\<lambda>c. cell cells nc r c + epsilon * (if even (r * nc + c) then Fin 1 else Fin (- 1)))
       [0..<nc]"

definition euclid_norm :: "double list \<Rightarrow> double" where
  "euclid_norm row = dsqrt (accumulate (map (\<lambda>x. x * x) row))"

definition renormalised :: "double list \<Rightarrow> double list" where
  "renormalised row =
     (if HIL_EPS < euclid_norm row then map (\<lambda>x. x * ddiv (Fin 1) (euclid_norm row)) row
      else row)"

definition perturbed :: "double \<Rightarrow> nat \<Rightarrow> nat \<Rightarrow> double list \<Rightarrow> double list" where
  "perturbed epsilon nr nc cells =
     concat (map (\<lambda>r. renormalised (perturbed_row epsilon nc cells r)) [0..<nr]) @
     drop (nr * nc) cells"

text \<open>Addresses from \<open>brk\<close> on hold no buffer.\<close>

definition store_wf :: "memory \<Rightarrow> bool" where
  "store_wf m = (\<forall>a. brk m \<le> a \<longrightarrow> f64_cells m a = None)"

text \<open>The sensitivity of the coherence to the perturbation of a private copy.\<close>

definition stability_value :: "double list \<Rightarrow> nat \<Rightarrow> nat \<Rightarrow> double" where
  "stability_value cells nr nc =
     ddiv (fabs (coherence_value (perturbed stability_eps nr nc (take (nr * nc) cells)) nr nc -
                 coherence_value cells nr nc))
          stability_eps"

text \<open>
  The same value when the three allocation requests of the call have the outcomes \<open>oks\<close>,
  a request past the end of the list being granted: the copy is the second request, and
  a coherence whose centroid is refused is 0.
\<close>

definition granted :: "bool list \<Rightarrow> nat \<Rightarrow> bool" where
  "granted oks i = (if i < length oks then oks ! i else True)"

definition stability_under :: "bool list \<Rightarrow> double list \<Rightarrow> nat \<Rightarrow> nat \<Rightarrow> double" where
  "stability_under oks cells nr nc =
     (if granted oks 1
      then ddiv (fabs ((if granted oks 2
                        then coherence_value
                               (perturbed stability_eps nr nc (take (nr * nc) cells)) nr nc
                        else 0) -
                       (if granted oks 0 then coherence_value cells nr nc else 0)))
             stability_eps
      else 0)"

text \<open>
  The entropy of the weighted degrees of \<open>n\<close> nodes: 0 when their accumulated sum is at
  most \<open>HIL_EPS\<close>; otherwise, from \<^verbatim>\<open>0.0\<close>, every share \<open>p\<close> above \<open>HIL_EPS\<close> in turn
  takes \<open>p * log p\<close> away.
\<close>

definition total_degree :: "double list \<Rightarrow> double" where
  "total_degree deg = accumulate deg"

definition entropy_step :: "(double \<Rightarrow> double) \<Rightarrow> double \<Rightarrow> double \<Rightarrow> double \<Rightarrow> double" where
  "entropy_step lg tot H x =
     (let p = ddiv x tot in if HIL_EPS < p then H - p * hil_safe_log lg p else H)"

definition entropy_value :: "(double \<Rightarrow> double) \<Rightarrow> double list \<Rightarrow> double" where
  "entropy_value lg deg =
     (if total_degree deg \<le> HIL_EPS then 0
      else foldl (entropy_step lg (total_degree deg)) 0 deg)"
section \<open>Stores and structures of the examples\<close>

text \<open>Three nodes, the edges 0-1 and 1-2 with the weights 1 and 1/2.\<close>

definition mem0 :: memory where
  "mem0 = \<lparr>u32_cells = (\<lambda>_. None)(0 \<mapsto> [0, 1], 1 \<mapsto> [1, 2]),
           f64_cells = (\<lambda>_. None)(2 \<mapsto> [Fin 1, Fin (1 / 2)]),
           brk = 3, outcomes = []\<rparr>"

definition graph0 :: hil_graph where
  "graph0 = \<lparr>num_nodes = 3, num_edges = 2, src = Some 0, dst = Some 1, weight = Some 2\<rparr>"

text \<open>The buffer of the weights read as a matrix of one row.\<close>

definition matrix0 :: hil_matrix where
  "matrix0 = \<lparr>data = Some 2, rows = 1, cols = 2\<rparr>"

text \<open>
  A store with three coordinate buffers: two rows \<open>(3, 4)\<close>, two rows \<open>(0, 0)\<close>, and two
  rows \<open>(\<infinity>)\<close>; and the fields that read them.
\<close>

definition mem1 :: memory where
  "mem1 = \<lparr>u32_cells = (\<lambda>_. None),
           f64_cells = (\<lambda>_. None)(10 \<mapsto> [Fin 3, Fin 4, Fin 3, Fin 4],
                                      11 \<mapsto> [Fin 0, Fin 0, Fin 0, Fin 0],
                                      12 \<mapsto> [PInf, PInf]),
           brk = 13, outcomes = []\<rparr>"

definition field1 :: hil_field where
  "field1 = \<lparr>coordinates = \<lparr>data = Some 10, rows = 2, cols = 2\<rparr>\<rparr>"

definition field_zero :: hil_field where
  "field_zero = \<lparr>coordinates = \<lparr>data = Some 11, rows = 2, cols = 2\<rparr>\<rparr>"

definition field_inf :: hil_field where
  "field_inf = \<lparr>coordinates = \<lparr>data = Some 12, rows = 2, cols = 1\<rparr>\<rparr>"


definition graph_pair :: hil_graph where
  "graph_pair = \<lparr>num_nodes = 2, num_edges = 1, src = Some 20, dst = Some 21, weight = Some 22\<rparr>"


definition graph_huge :: hil_graph where
  "graph_huge = \<lparr>num_nodes = 2 ^ 61, num_edges = 0, src = None, dst = None, weight = None\<rparr>"







section \<open>Rounding to binary64\<close>


lemma rne_alt:
  "rne x = (if x - of_int \<lfloor>x\<rfloor> < 1 / 2 then \<lfloor>x\<rfloor> else if 1 / 2 < x - of_int \<lfloor>x\<rfloor> then \<lfloor>x\<rfloor> + 1
            else if even \<lfloor>x\<rfloor> then \<lfloor>x\<rfloor> else \<lfloor>x\<rfloor> + 1)"
  by (simp add: rne_def Let_def)

lemma rne_near: "\<bar>of_int (rne x) - x\<bar> \<le> 1 / 2"
proof -
  define f where "f = \<lfloor>x\<rfloor>"
  have "of_int f \<le> x" "x < of_int f + 1" unfolding f_def by linarith+
  then show ?thesis unfolding rne_alt f_def [symmetric] by (auto simp: abs_if)
qed




lemma powr_powi: "(2 :: real) powr real_of_int k = 2 powi k"
  by (simp add: powr_real_of_int')

lemma floor_log2:
  assumes "0 < x"
  shows "2 powi \<lfloor>log 2 x\<rfloor> \<le> x" "x < 2 powi (\<lfloor>log 2 x\<rfloor> + 1)"
  using floor_log_eq_powr_iff [OF assms, of 2 "\<lfloor>log 2 x\<rfloor>"] unfolding powr_powi by simp_all



lemma binade_upper: "x \<noteq> 0 \<Longrightarrow> \<bar>x\<bar> < 2 powi (binade x + 1)"
proof -
  assume "x \<noteq> 0"
  then have p: "0 < \<bar>x\<bar>" by simp
  have "\<bar>x\<bar> < 2 powi (\<lfloor>log 2 \<bar>x\<bar>\<rfloor> + 1)" using floor_log2(2) [OF p] .
  also have "\<dots> \<le> 2 powi (binade x + 1)"
    by (rule power_int_increasing) (simp_all add: binade_def)
  finally show ?thesis .
qed

lemma binade_lower: "x \<noteq> 0 \<Longrightarrow> - 1022 < binade x \<Longrightarrow> 2 powi binade x \<le> \<bar>x\<bar>"
proof -
  assume "x \<noteq> 0" and b: "- 1022 < binade x"
  then have p: "0 < \<bar>x\<bar>" by simp
  have "binade x = \<lfloor>log 2 \<bar>x\<bar>\<rfloor>" using b by (simp add: binade_def)
  then show ?thesis using floor_log2(1) [OF p] by simp
qed


lemma binade_small: "x \<noteq> 0 \<Longrightarrow> \<bar>x\<bar> < 2 powi (- 1022) \<Longrightarrow> binade x = - 1022"
proof (rule ccontr)
  assume a: "\<bar>x\<bar> < 2 powi (- 1022)" and nz: "x \<noteq> 0"
  assume "binade x \<noteq> - 1022"
  then have b: "- 1022 < binade x" by (simp add: binade_def)
  have "(2 :: real) powi (- 1022) \<le> 2 powi binade x"
    by (rule power_int_increasing) (use b in simp_all)
  also have "\<dots> \<le> \<bar>x\<bar>" using nz b by (rule binade_lower)
  finally show False using a by simp
qed

lemma binade_ge: "- 1022 \<le> binade x"
  by (simp add: binade_def)


lemma powi2_less_iff: "(2 :: real) powi a < 2 powi b \<longleftrightarrow> a < b"
proof
  assume l: "(2 :: real) powi a < 2 powi b"
  show "a < b"
  proof (rule ccontr)
    assume "\<not> a < b"
    then have "(2 :: real) powi b \<le> 2 powi a" by (intro power_int_increasing) simp_all
    then show False using l by simp
  qed
qed (simp add: power_int_strict_increasing)

lemma powi2_le_iff: "(2 :: real) powi a \<le> 2 powi b \<longleftrightarrow> a \<le> b"
  using powi2_less_iff [of b a] by (simp add: not_less [symmetric])






lemma binade_cases: "x \<noteq> 0 \<Longrightarrow> 2 powi binade x \<le> \<bar>x\<bar> \<or> binade x = - 1022"
  using binade_lower [of x] binade_ge [of x] by fastforce



lemma round_double_nearest:
  "round_double x = (if x = 0 then Fin 0 else if 2 ^ 1024 \<le> \<bar>nearest x\<bar>
     then (if 0 < x then PInf else NInf) else Fin (nearest x))"
  by (simp add: round_double_def nearest_def Let_def)

lemma nearest_error: "\<bar>nearest x - x\<bar> \<le> 2 powi (binade x - 53)"
proof -
  define u :: real where "u = 2 powi (binade x - 52)"
  have u: "0 < u" by (simp add: u_def)
  have "\<bar>of_int (rne (x / u)) - x / u\<bar> * u \<le> 1 / 2 * u"
    using rne_near [of "x / u"] u by (intro mult_right_mono) simp_all
  moreover have "\<bar>of_int (rne (x / u)) - x / u\<bar> * u = \<bar>of_int (rne (x / u)) * u - x\<bar>"
  proof -
    have "\<bar>of_int (rne (x / u)) - x / u\<bar> * u = \<bar>(of_int (rne (x / u)) - x / u) * u\<bar>"
      using u by (simp add: abs_mult)
    also have "(of_int (rne (x / u)) - x / u) * u = of_int (rne (x / u)) * u - x"
      using u by (simp add: left_diff_distrib)
    finally show ?thesis .
  qed
  moreover have "1 / 2 * u = 2 powi (binade x - 53)"
    by (simp add: u_def power_int_diff)
  ultimately show ?thesis unfolding nearest_def u_def [symmetric] by linarith
qed








text \<open>The relative error of rounding, away from overflow.\<close>

lemma round_double_error:
  assumes "\<bar>x\<bar> \<le> 2 ^ 1023"
  shows "\<exists>y. round_double x = Fin y \<and> \<bar>y - x\<bar> \<le> max (\<bar>x\<bar> / 2 ^ 53) (1 / 2 ^ 1075)"
proof (cases "x = 0")
  case True
  then show ?thesis by (simp add: round_double_def)
next
  case False
  define b where "b = binade x"
  have err: "\<bar>nearest x - x\<bar> \<le> 2 powi (b - 53)" unfolding b_def by (rule nearest_error)
  have "2 powi (b - 53) \<le> max (\<bar>x\<bar> / 2 ^ 53) (1 / 2 ^ 1075)"
  proof (cases "b = - 1022")
    case True
    then have "(2 :: real) powi (b - 53) = 1 / 2 ^ 1075" by (simp add: power_int_minus_divide)
    then show ?thesis by simp
  next
    case False
    then have "2 powi b \<le> \<bar>x\<bar>" using binade_cases [OF \<open>x \<noteq> 0\<close>] by (simp add: b_def)
    then have "2 powi b / 2 ^ 53 \<le> \<bar>x\<bar> / 2 ^ 53" by (simp add: divide_right_mono)
    moreover have "(2 :: real) powi (b - 53) = 2 powi b / 2 ^ 53" by (simp add: power_int_diff)
    ultimately show ?thesis by simp
  qed
  with err have e: "\<bar>nearest x - x\<bar> \<le> max (\<bar>x\<bar> / 2 ^ 53) (1 / 2 ^ 1075)" by linarith
  have "max (\<bar>x\<bar> / 2 ^ 53) (1 / 2 ^ 1075) \<le> (2 :: real) ^ 1023 / 2 ^ 53"
    using assms by (simp add: divide_right_mono)
  then have "\<bar>nearest x\<bar> \<le> 2 ^ 1023 + 2 ^ 1023 / 2 ^ 53" using e assms by linarith
  also have "\<dots> < (2 :: real) ^ 1024" by simp
  finally show ?thesis using e False by (simp add: round_double_nearest)
qed

section \<open>Evaluating the rounding\<close>




















lemma between_widen:
  "between a b x \<Longrightarrow> a' \<le> a \<Longrightarrow> b \<le> b' \<Longrightarrow> between a' b' x"
proof -
  assume b: "between a b x" and le: "a' \<le> a" "b \<le> b'"
  then obtain u where x: "x = Fin u" "2 powi a \<le> u" "u \<le> 2 powi b" unfolding between_def by blast
  have "(2 :: real) powi a' \<le> 2 powi a" "(2 :: real) powi b \<le> 2 powi b'"
    using le by (simp_all only: powi2_le_iff)
  then show ?thesis using x unfolding between_def by (intro exI [of _ u]) simp
qed





section \<open>Loops and the vector routines as functions\<close>

lemma for_each_append:
  "for_each (xs @ ys) body s =
     (case for_each xs body s of None \<Rightarrow> None | Some s' \<Rightarrow> for_each ys body s')"
  by (induction xs arbitrary: s) (auto split: option.splits)

lemma for_each_Suc:
  "for_each [0..<Suc n] body s =
     (case for_each [0..<n] body s of None \<Rightarrow> None | Some s' \<Rightarrow> body n s')"
  by (simp add: for_each_append split: option.splits)

lemma for_each_pointwise:
  assumes body: "\<And>i d. i < n \<Longrightarrow> i < length d \<Longrightarrow> body i d = Some (d[i := g i (d ! i)])"
    and len: "n \<le> length d"
  shows "for_each [0..<n] body d = Some (map (\<lambda>i. g i (d ! i)) [0..<n] @ drop n d)"
  using assms
proof (induction n)
  case 0
  then show ?case by simp
next
  case (Suc n)
  let ?d' = "map (\<lambda>i. g i (d ! i)) [0..<n] @ drop n d"
  have IH: "for_each [0..<n] body d = Some ?d'"
    using Suc by simp
  have len': "Suc n \<le> length ?d'" using Suc.prems(2) by simp
  have nth: "?d' ! n = d ! n" using Suc.prems(2) by (simp add: nth_append)
  have upd: "?d'[n := v] = map (\<lambda>i. g i (d ! i)) [0..<n] @ v # drop (Suc n) d" for v
    using Suc.prems(2) by (simp add: list_update_append Cons_nth_drop_Suc [symmetric] del: upt_Suc)
  show ?case
    using IH Suc.prems(1) [of n ?d'] len' nth upd
    by (simp add: for_each_Suc del: upt_Suc) simp
qed

lemma for_each_invariant:
  assumes "I 0 s0"
    and "\<And>i s. i < n \<Longrightarrow> I i s \<Longrightarrow> \<exists>s'. body i s = Some s' \<and> I (Suc i) s'"
  shows "\<exists>s'. for_each [0..<n] body s0 = Some s' \<and> I n s'"
  using assms
proof (induction n)
  case 0
  then show ?case by simp
next
  case (Suc n)
  then obtain s1 where "for_each [0..<n] body s0 = Some s1" "I n s1"
    by (metis less_Suc_eq)
  then show ?case using Suc.prems(2) [of n s1]
    by (auto simp: for_each_Suc simp del: upt_Suc)
qed


lemma for_each_accum:
  assumes body: "\<And>i s. i < n \<Longrightarrow> body i s = Some (s + f i)"
  shows "for_each [0..<n] body (s0 :: double) = Some (foldl (+) s0 (map f [0..<n]))"
  using assms
proof (induction n)
  case 0
  then show ?case by simp
next
  case (Suc n)
  then have "for_each [0..<n] body s0 = Some (foldl (+) s0 (map f [0..<n]))" by simp
  then show ?case using Suc.prems [of n]
    by (simp add: for_each_Suc del: upt_Suc) simp
qed

lemma hil_vec_dot_eq:
  "n \<le> length a \<Longrightarrow> n \<le> length b \<Longrightarrow>
     hil_vec_dot a b n = Some (accumulate (map (\<lambda>i. a ! i * b ! i) [0..<n]))"
  unfolding hil_vec_dot_def accumulate_def
  by (subst for_each_accum [where f = "\<lambda>i. a ! i * b ! i"]) (simp_all add: rd_def)

lemma hil_vec_norm_eq:
  "n \<le> length a \<Longrightarrow>
     hil_vec_norm a n = Some (dsqrt (accumulate (map (\<lambda>i. a ! i * a ! i) [0..<n])))"
  unfolding hil_vec_norm_def accumulate_def
  by (subst for_each_accum [where f = "\<lambda>i. a ! i * a ! i"]) (simp_all add: rd_def)

lemma hil_vec_zero_eq:
  "n \<le> length d \<Longrightarrow> hil_vec_zero d n = Some (replicate n 0 @ drop n d)"
  unfolding hil_vec_zero_def
  by (subst for_each_pointwise [where g = "\<lambda>i x. 0"]) (simp_all add: wr_def map_replicate_const)

lemma hil_vec_add_inplace_eq:
  "n \<le> length d \<Longrightarrow> n \<le> length s \<Longrightarrow>
   hil_vec_add_inplace d s n = Some (map (\<lambda>i. d ! i + s ! i) [0..<n] @ drop n d)"
  unfolding hil_vec_add_inplace_def
  by (subst for_each_pointwise [where g = "\<lambda>i x. x + s ! i"]) (simp_all add: wr_def rd_def)

lemma hil_vec_scale_inplace_eq:
  "n \<le> length d \<Longrightarrow>
   hil_vec_scale_inplace d n k = Some (map (\<lambda>i. d ! i * k) [0..<n] @ drop n d)"
  unfolding hil_vec_scale_inplace_def
  by (subst for_each_pointwise [where g = "\<lambda>i x. x * k"]) (simp_all add: wr_def rd_def)

section \<open>Properties of validation\<close>

lemma load_u32_readable:
  "readable_u32 m (Some a) n \<Longrightarrow> e < n \<Longrightarrow> \<exists>v. load_u32 m (Some a) e = Some v"
  by (auto simp: readable_u32_def load_u32_def rd_def split: option.splits)

lemma load_f64_readable:
  "readable_f64 m (Some a) n \<Longrightarrow> e < n \<Longrightarrow> \<exists>v. load_f64 m (Some a) e = Some v"
  by (auto simp: readable_f64_def load_f64_def rd_def split: option.splits)

lemma validate_edges_spec:
  assumes "graph_readable m g" "src g \<noteq> None" "dst g \<noteq> None" "weight g \<noteq> None"
  shows "validate_edges m g e =
           Some (if \<exists>k. e \<le> k \<and> k < num_edges g \<and> bad_edge m g k then 0 else 1)"
  using assms
proof (induction m g e rule: validate_edges.induct)
  case (1 m g e)
  show ?case
  proof (cases "e < num_edges g")
    case False
    then show ?thesis by (subst validate_edges.simps) auto
  next
    case True
    from 1(2-) True obtain s d w where
      sdw: "load_u32 m (src g) e = Some s" "load_u32 m (dst g) e = Some d"
           "load_f64 m (weight g) e = Some w"
      unfolding graph_readable_def
      by (metis load_u32_readable load_f64_readable not_None_eq)
    have split: "(\<exists>k. e \<le> k \<and> k < num_edges g \<and> bad_edge m g k) \<longleftrightarrow>
                 bad_edge m g e \<or> (\<exists>k. e + 1 \<le> k \<and> k < num_edges g \<and> bad_edge m g k)"
    proof -
      have *: "\<And>k. (e \<le> k) = (k = e \<or> e + 1 \<le> k)" by auto
      show ?thesis unfolding * using True by blast
    qed
    show ?thesis
    proof (cases "bad_edge m g e")
      case True
      with sdw \<open>e < num_edges g\<close> show ?thesis
        by (subst validate_edges.simps) (auto simp: bad_edge_def)
    next
      case False
      then have ok: "\<not> num_nodes g \<le> unat s" "\<not> num_nodes g \<le> unat d" "isfinite w" "\<not> w < 0"
        using sdw by (auto simp: bad_edge_def)
      have "validate_edges m g e = validate_edges m g (e + 1)"
        using sdw ok \<open>e < num_edges g\<close> by (subst validate_edges.simps) simp
      also have "\<dots> = Some (if \<exists>k. e + 1 \<le> k \<and> k < num_edges g \<and> bad_edge m g k then 0 else 1)"
        using "1.IH"[OF \<open>e < num_edges g\<close> sdw(1) sdw(2) ok(1) ok(2) sdw(3) _ _ "1.prems"] ok by simp
      finally show ?thesis using False split by simp
    qed
  qed
qed

text \<open>
  C2. Given edge arrays that are null or live buffers of \<open>num_edges\<close> cells,
  \<^verbatim>\<open>hil_graph_validate\<close> returns 0 exactly for a null graph, a graph without nodes,
  a graph with edges and a null edge array, an edge with an endpoint that is not below
  \<open>num_nodes\<close>, and an edge with a negative or non-finite weight; it returns 1 for every
  other graph, so for every graph without edges that has a node.
\<close>

theorem validate_rejects_exactly:
  assumes "case graph of None \<Rightarrow> True | Some g \<Rightarrow> graph_readable m g"
  shows "hil_graph_validate m graph = Some (if rejected m graph then 0 else 1)"
proof (cases graph)
  case None
  then show ?thesis by (simp add: hil_graph_validate_def rejected_def)
next
  case (Some g)
  with assms have r: "graph_readable m g" by simp
  show ?thesis
  proof (cases "num_nodes g = 0 \<or> (0 < num_edges g \<and> (src g = None \<or> dst g = None \<or> weight g = None))")
    case True
    then show ?thesis using Some by (auto simp: hil_graph_validate_def rejected_def)
  next
    case False
    show ?thesis
    proof (cases "num_edges g = 0")
      case True
      then show ?thesis using Some False
        by (subst hil_graph_validate_def, subst validate_edges.simps) (auto simp: rejected_def)
    next
      case ne: False
      with False have nn: "src g \<noteq> None" "dst g \<noteq> None" "weight g \<noteq> None" by auto
      show ?thesis using Some False validate_edges_spec[OF r nn, of 0]
        by (auto simp: hil_graph_validate_def rejected_def)
    qed
  qed
qed

lemma graph0_readable: "graph_readable mem0 graph0"
  by (simp add: graph_readable_def readable_u32_def readable_f64_def mem0_def graph0_def)

lemma less_two_cases: "(e::nat) < 2 \<longleftrightarrow> e = 0 \<or> e = 1"
  by auto

lemma graph0_not_rejected: "\<not> rejected mem0 (Some graph0)"
proof -
  have b: "\<not> bad_edge mem0 graph0 0" "\<not> bad_edge mem0 graph0 1"
    by (simp_all add: graph0_def mem0_def bad_edge_def load_u32_def load_f64_def rd_def
        zero_double_def)
  have f: "num_nodes graph0 = 3" "num_edges graph0 = 2" "src graph0 = Some 0"
    "dst graph0 = Some 1" "weight graph0 = Some 2"
    by (simp_all add: graph0_def)
  have "\<not> (\<exists>e<2. bad_edge mem0 graph0 e)"
    using b by (auto simp only: less_two_cases)
  then show ?thesis
    by (simp add: rejected_def f)
qed

theorem validate_rejects_exactly_witness:
  "graph_readable mem0 graph0 \<and> \<not> rejected mem0 (Some graph0) \<and> hil_graph_validate mem0 (Some graph0) = Some 1"
  using validate_rejects_exactly[where graph = "Some graph0" and m = mem0] graph0_readable graph0_not_rejected by simp

section \<open>Properties of the weighted degree\<close>










lemma dyadic_zero: "(0 :: double) = Fin (real 0 / 2 ^ q)"
  by (simp add: zero_double_def)





















section \<open>Properties of the release operations\<close>

lemma free_u32_live:
  "live_u32 m p \<Longrightarrow>
     free_u32 m p = Some (case p of None \<Rightarrow> m | Some a \<Rightarrow> m\<lparr>u32_cells := (u32_cells m)(a := None)\<rparr>)"
  by (auto simp: live_u32_def free_u32_def split: option.splits)

lemma free_f64_live:
  "live_f64 m p \<Longrightarrow>
     free_f64 m p = Some (case p of None \<Rightarrow> m | Some a \<Rightarrow> m\<lparr>f64_cells := (f64_cells m)(a := None)\<rparr>)"
  by (auto simp: live_f64_def free_f64_def split: option.splits)

lemma hil_graph_free_zeroed:
  "hil_graph_free m (Some \<lparr>num_nodes = 0, num_edges = 0, src = None, dst = None, weight = None\<rparr>) =
     Some (m, Some \<lparr>num_nodes = 0, num_edges = 0, src = None, dst = None, weight = None\<rparr>)"
  by (simp add: hil_graph_free_def free_u32_def free_f64_def)

lemma hil_matrix_free_zeroed:
  "hil_matrix_free m (Some \<lparr>data = None, rows = 0, cols = 0\<rparr>) =
     Some (m, Some \<lparr>data = None, rows = 0, cols = 0\<rparr>)"
  by (simp add: hil_matrix_free_def free_f64_def)

lemma hil_graph_free_owned:
  assumes "graph_owned m g"
  shows "\<exists>m1. hil_graph_free m (Some g) =
           Some (m1, Some \<lparr>num_nodes = 0, num_edges = 0, src = None, dst = None, weight = None\<rparr>)"
proof -
  from assms have s: "live_u32 m (src g)" and d: "live_u32 m (dst g)"
    and w: "live_f64 m (weight g)" and ne: "src g = None \<or> src g \<noteq> dst g"
    by (auto simp: graph_owned_def)
  obtain m1 where m1: "free_u32 m (src g) = Some m1"
    and m1_def: "m1 = (case src g of None \<Rightarrow> m | Some a \<Rightarrow> m\<lparr>u32_cells := (u32_cells m)(a := None)\<rparr>)"
    using free_u32_live [OF s] by simp
  have "live_u32 m1 (dst g)"
    using d ne by (auto simp: m1_def live_u32_def split: option.splits)
  then obtain m2 where m2: "free_u32 m1 (dst g) = Some m2"
    and m2_def: "m2 = (case dst g of None \<Rightarrow> m1 | Some a \<Rightarrow> m1\<lparr>u32_cells := (u32_cells m1)(a := None)\<rparr>)"
    using free_u32_live by simp
  have "live_f64 m2 (weight g)"
    using w by (auto simp: m1_def m2_def live_f64_def split: option.splits)
  then obtain m3 where m3: "free_f64 m2 (weight g) = Some m3"
    using free_f64_live by simp
  show ?thesis using m1 m2 m3 by (simp add: hil_graph_free_def)
qed

text \<open>
  C9. Releasing a graph that owns its arrays, or a matrix whose \<open>data\<close> may be freed,
  succeeds and leaves the structure zeroed: every pointer null and \<open>num_nodes\<close>,
  \<open>num_edges\<close> (\<open>rows\<close>, \<open>cols\<close>) equal to 0. Releasing the zeroed structure again
  changes neither the structure nor the store.
\<close>

theorem release_zeroes_and_repeats:
  assumes "graph_owned m g" and "live_f64 m (data M)"
  shows "\<exists>m1 m2.
     hil_graph_free m (Some g) =
       Some (m1, Some \<lparr>num_nodes = 0, num_edges = 0, src = None, dst = None, weight = None\<rparr>) \<and>
     hil_graph_free m1 (Some \<lparr>num_nodes = 0, num_edges = 0, src = None, dst = None, weight = None\<rparr>) =
       Some (m1, Some \<lparr>num_nodes = 0, num_edges = 0, src = None, dst = None, weight = None\<rparr>) \<and>
     hil_matrix_free m (Some M) = Some (m2, Some \<lparr>data = None, rows = 0, cols = 0\<rparr>) \<and>
     hil_matrix_free m2 (Some \<lparr>data = None, rows = 0, cols = 0\<rparr>) =
       Some (m2, Some \<lparr>data = None, rows = 0, cols = 0\<rparr>)"
proof -
  from hil_graph_free_owned [OF assms(1)] obtain m1 where
    g: "hil_graph_free m (Some g) =
          Some (m1, Some \<lparr>num_nodes = 0, num_edges = 0, src = None, dst = None, weight = None\<rparr>)" ..
  obtain m2 where
    M: "hil_matrix_free m (Some M) = Some (m2, Some \<lparr>data = None, rows = 0, cols = 0\<rparr>)"
    using free_f64_live [OF assms(2)] by (simp add: hil_matrix_free_def)
  show ?thesis
    using g M hil_graph_free_zeroed [of m1] hil_matrix_free_zeroed [of m2] by blast
qed

theorem release_zeroes_and_repeats_witness:
  "graph_owned mem0 graph0 \<and> live_f64 mem0 (data matrix0) \<and>
   (\<exists>m1 m2.
     hil_graph_free mem0 (Some graph0) =
       Some (m1, Some \<lparr>num_nodes = 0, num_edges = 0, src = None, dst = None, weight = None\<rparr>) \<and>
     hil_graph_free m1 (Some \<lparr>num_nodes = 0, num_edges = 0, src = None, dst = None, weight = None\<rparr>) =
       Some (m1, Some \<lparr>num_nodes = 0, num_edges = 0, src = None, dst = None, weight = None\<rparr>) \<and>
     hil_matrix_free mem0 (Some matrix0) = Some (m2, Some \<lparr>data = None, rows = 0, cols = 0\<rparr>) \<and>
     hil_matrix_free m2 (Some \<lparr>data = None, rows = 0, cols = 0\<rparr>) =
       Some (m2, Some \<lparr>data = None, rows = 0, cols = 0\<rparr>))"
proof -
  have o: "graph_owned mem0 graph0"
    by (simp add: graph_owned_def live_u32_def live_f64_def mem0_def graph0_def)
  have l: "live_f64 mem0 (data matrix0)"
    by (simp add: live_f64_def mem0_def matrix0_def)
  from release_zeroes_and_repeats [OF o l] o l show ?thesis by simp
qed

section \<open>The field routines as functions of the cells\<close>

lemma size_mul_small: "a * b < 2 ^ 64 \<Longrightarrow> size_mul a b = a * b"
  by (simp add: size_mul_def)

lemma size_add_small: "a + b < 2 ^ 64 \<Longrightarrow> size_add a b = a + b"
  by (simp add: size_add_def)

lemma row_bound:
  assumes "nr * nc \<le> len" "r < nr"
  shows "r * nc + nc \<le> (len :: nat)"
proof -
  have "Suc r * nc \<le> nr * nc" using assms(2) by (intro mult_le_mono1) simp
  then show ?thesis using assms(1) by (simp add: add.commute)
qed

lemma row_at_eq:
  assumes "nr * nc \<le> length cells" "8 * length cells < 2 ^ 64" "r < nr"
  shows "row_at cells r nc = drop (r * nc) cells"
proof -
  have "r * nc \<le> length cells" using row_bound [OF assms(1,3)] by simp
  then show ?thesis using assms(2) by (simp add: row_at_def size_mul_small)
qed

lemma row_at_nth:
  assumes "nr * nc \<le> length cells" "8 * length cells < 2 ^ 64" "r < nr" "c < nc"
  shows "row_at cells r nc ! c = cell cells nc r c"
  using row_at_eq [OF assms(1-3)] row_bound [OF assms(1,3)] assms(4)
  by (simp add: cell_def)

lemma row_at_length:
  assumes "nr * nc \<le> length cells" "8 * length cells < 2 ^ 64" "r < nr"
  shows "nc \<le> length (row_at cells r nc)"
  using row_at_eq [OF assms(1-3)] row_bound [OF assms(1,3)] by simp

lemma centroid_sum_loop:
  assumes len: "nr * nc \<le> length cells" "8 * length cells < 2 ^ 64"
  shows "for_each [0..<nr]
           (\<lambda>r centroid. hil_vec_add_inplace centroid (row_at cells r nc) nc)
           (replicate nc 0 @ rest) =
         Some (map (\<lambda>c. accumulate (map (\<lambda>r. cell cells nc r c) [0..<nr])) [0..<nc] @ rest)"
proof -
  let ?I = "\<lambda>k cen. cen = map (\<lambda>c. accumulate (map (\<lambda>r. cell cells nc r c) [0..<k])) [0..<nc] @ rest"
  have "\<exists>s'. for_each [0..<nr]
           (\<lambda>r centroid. hil_vec_add_inplace centroid (row_at cells r nc) nc)
           (replicate nc 0 @ rest) = Some s' \<and> ?I nr s'"
  proof (rule for_each_invariant)
    show "?I 0 (replicate nc 0 @ rest)"
      by (simp add: map_replicate_const accumulate_def)
  next
    fix k cen assume k: "k < nr" and I: "?I k cen"
    have l: "nc \<le> length cen" using I by simp
    have "hil_vec_add_inplace cen (row_at cells k nc) nc =
            Some (map (\<lambda>i. cen ! i + row_at cells k nc ! i) [0..<nc] @ drop nc cen)"
      using hil_vec_add_inplace_eq [OF l row_at_length [OF len k]] .
    moreover have "map (\<lambda>i. cen ! i + row_at cells k nc ! i) [0..<nc] =
                   map (\<lambda>c. accumulate (map (\<lambda>r. cell cells nc r c) [0..<Suc k])) [0..<nc]"
      using I by (intro map_cong refl) (simp add: row_at_nth [OF len k] nth_append accumulate_def)
    moreover have "drop nc cen = rest" using I by simp
    ultimately show "\<exists>s'. hil_vec_add_inplace cen (row_at cells k nc) nc = Some s' \<and> ?I (Suc k) s'"
      by simp
  qed
  then show ?thesis by simp
qed

lemma accumulate_cong_nth:
  "(\<And>i. i < n \<Longrightarrow> f i = g i) \<Longrightarrow> accumulate (map f [0..<n]) = accumulate (map g [0..<n])"
  by (rule arg_cong [where f = accumulate]) simp

lemma cosine_term_eq:
  assumes len: "nr * nc \<le> length cells" "8 * length cells < 2 ^ 64" and r: "r < nr"
    and cen: "\<And>c. c < nc \<Longrightarrow> centroid ! c = v c" "nc \<le> length centroid"
  shows "cosine_term cells centroid nc cn r s =
           Some (s + ddiv (accumulate (map (\<lambda>c. cell cells nc r c * v c) [0..<nc]))
                        (hil_clamp_min (norm_of (cell cells nc r) nc) HIL_EPS * cn))"
proof -
  have n: "hil_vec_norm (row_at cells r nc) nc = Some (norm_of (cell cells nc r) nc)"
    using hil_vec_norm_eq [OF row_at_length [OF len r]]
    by (simp add: norm_of_def row_at_nth [OF len r] cong: accumulate_cong_nth)
  have d: "hil_vec_dot (row_at cells r nc) centroid nc =
             Some (accumulate (map (\<lambda>c. cell cells nc r c * v c) [0..<nc]))"
    using hil_vec_dot_eq [OF row_at_length [OF len r] cen(2)]
    by (simp add: row_at_nth [OF len r] cen(1) cong: accumulate_cong_nth)
  show ?thesis by (simp add: cosine_term_def n d)
qed

lemma coherence_rows_eq:
  assumes len: "nr * nc \<le> length cells" "8 * length cells < 2 ^ 64"
    and c0: "nc \<le> length c0"
  shows "coherence_rows cells nr nc c0 = Some (coherence_value cells nr nc)"
proof -
  let ?rest = "drop nc c0"
  let ?k = "ddiv (Fin 1) (double_of_size nr)"
  let ?sum = "map (\<lambda>c. accumulate (map (\<lambda>r. cell cells nc r c) [0..<nr])) [0..<nc] @ ?rest"
  let ?cen = "map (\<lambda>i. ?sum ! i * ?k) [0..<nc] @ drop nc ?sum"
  have z: "hil_vec_zero c0 nc = Some (replicate nc 0 @ ?rest)"
    using hil_vec_zero_eq [OF c0] .
  have s: "for_each [0..<nr] (\<lambda>r centroid. hil_vec_add_inplace centroid (row_at cells r nc) nc)
             (replicate nc 0 @ ?rest) = Some ?sum"
    using centroid_sum_loop [OF len] .
  have sc: "hil_vec_scale_inplace ?sum nc ?k = Some ?cen"
    by (rule hil_vec_scale_inplace_eq) simp
  have cen_nth: "?cen ! c = centroid_of cells nr nc c" if "c < nc" for c
    using that by (simp add: nth_append centroid_of_def)
  have cen_len: "nc \<le> length ?cen" by simp
  have cn: "hil_vec_norm ?cen nc = Some (norm_of (centroid_of cells nr nc) nc)"
    using hil_vec_norm_eq [OF cen_len] cen_nth
    by (simp add: norm_of_def cong: accumulate_cong_nth)
  let ?cn = "hil_clamp_min (norm_of (centroid_of cells nr nc) nc) HIL_EPS"
  have "for_each [0..<nr] (cosine_term cells ?cen nc ?cn) 0 =
          Some (foldl (+) 0 (map (cosine_of cells nr nc) [0..<nr]))"
  proof (rule for_each_accum [where f = "cosine_of cells nr nc"])
    fix r s assume "r < nr"
    from cosine_term_eq [OF len this, of ?cen "centroid_of cells nr nc", OF cen_nth cen_len]
    show "cosine_term cells ?cen nc ?cn r s = Some (s + cosine_of cells nr nc r)"
      by (simp add: cosine_of_def)
  qed
  then have loop: "for_each [0..<nr] (cosine_term cells ?cen nc ?cn) 0 =
                Some (accumulate (map (cosine_of cells nr nc) [0..<nr]))"
    by (simp only: accumulate_def [symmetric])
  show ?thesis
    unfolding coherence_rows_def
    by (simp only: z s sc cn loop bind.bind_lunit coherence_value_def)
qed

lemma alloc_ok_frame:
  "alloc_ok m = (b, m') \<Longrightarrow>
     f64_cells m' = f64_cells m \<and> u32_cells m' = u32_cells m \<and> brk m' = brk m"
  by (auto simp: alloc_ok_def split: list.splits)

lemma alloc_ok_succeeds:
  "allocations_succeed m \<Longrightarrow> fst (alloc_ok m) \<and> allocations_succeed (snd (alloc_ok m))"
  by (auto simp: alloc_ok_def allocations_succeed_def split: list.splits)

lemma malloc_cells_cases:
  "malloc_cells m bytes sz junk =
     (if fst (alloc_ok m) then Some (replicate (bytes div sz) junk) else None, snd (alloc_ok m))"
  by (cases "alloc_ok m") (auto simp: malloc_cells_def split: bool.splits)

lemma field_readable_cells:
  assumes "field_readable m f"
  obtains a cells where "data (coordinates f) = Some a" "f64_cells m a = Some cells"
    "rows (coordinates f) * cols (coordinates f) \<le> length cells" "8 * length cells < 2 ^ 64"
  using assms by (auto simp: field_readable_def field_cells_def split: option.splits)

lemma hil_field_coherence_eq:
  assumes r: "field_readable m f" and ne: "rows (coordinates f) \<noteq> 0" "cols (coordinates f) \<noteq> 0"
    and c: "field_cells m f = Some cells"
  shows "hil_field_coherence m (Some f) =
           Some (if fst (alloc_ok m)
                 then coherence_value cells (rows (coordinates f)) (cols (coordinates f)) else 0,
                 snd (alloc_ok m))"
proof -
  from r c obtain a where a: "data (coordinates f) = Some a" "f64_cells m a = Some cells"
    and len: "rows (coordinates f) * cols (coordinates f) \<le> length cells"
             "8 * length cells < 2 ^ 64"
    by (auto simp: field_readable_def field_cells_def split: option.splits)
  let ?nc = "cols (coordinates f)"
  have "?nc \<le> rows (coordinates f) * ?nc" using ne by (cases "rows (coordinates f)") auto
  then have nc: "8 * ?nc < 2 ^ 64" using len by linarith
  then have sz: "size_mul 8 ?nc div 8 = ?nc" by (simp add: size_mul_small)
  have cells': "f64_cells (snd (alloc_ok m)) a = Some cells"
    using alloc_ok_frame [of m "fst (alloc_ok m)" "snd (alloc_ok m)"] a by simp
  show ?thesis
    using a ne cells' coherence_rows_eq [OF len, of "replicate ?nc NaN"]
    by (simp add: hil_field_coherence_def malloc_cells_cases sz Let_def)
qed

lemma hil_field_coherence_empty:
  "data (coordinates f) = None \<or> rows (coordinates f) = 0 \<or> cols (coordinates f) = 0 \<Longrightarrow>
     hil_field_coherence m (Some f) = Some (0, m)"
  by (auto simp: hil_field_coherence_def)

lemma field1_cells: "field_readable mem1 field1" "field_cells mem1 field1 = Some [Fin 3, Fin 4, Fin 3, Fin 4]"
  by (simp_all add: field_readable_def field_cells_def mem1_def field1_def)

section \<open>The perturbation as a function of the cells\<close>

lemma hil_det_sign_parity: "hil_det_sign idx = (if even idx then Fin 1 else Fin (- 1))"
  by (simp add: hil_det_sign_def and_one_eq mod_2_eq_odd)

lemma length_perturbed_row [simp]: "length (perturbed_row epsilon nc cells r) = nc"
  by (simp add: perturbed_row_def)

lemma length_renormalised [simp]: "length (renormalised row) = length row"
  by (simp add: renormalised_def)

lemma length_perturbed_prefix:
  "length (concat (map (\<lambda>r. renormalised (perturbed_row epsilon nc cells r)) [0..<k])) = k * nc"
  by (induction k) simp_all

lemma hil_vec_norm_prefix:
  "hil_vec_norm (p @ rest) (length p) = Some (euclid_norm p)"
proof -
  have "map (\<lambda>i. (p @ rest) ! i * (p @ rest) ! i) [0..<length p] = map (\<lambda>x. x * x) p"
    by (intro nth_equalityI) (simp_all add: nth_append)
  then show ?thesis
    using hil_vec_norm_eq [of "length p" "p @ rest"]
    by (simp add: euclid_norm_def)
qed

lemma hil_vec_scale_prefix:
  "hil_vec_scale_inplace (p @ rest) (length p) k = Some (map (\<lambda>x. x * k) p @ rest)"
proof -
  have "map (\<lambda>i. (p @ rest) ! i * k) [0..<length p] = map (\<lambda>x. x * k) p"
    by (intro nth_equalityI) (simp_all add: nth_append)
  then show ?thesis
    using hil_vec_scale_inplace_eq [of "length p" "p @ rest" k] by simp
qed

lemma perturb_row_eq:
  assumes len: "nr * nc \<le> length cs" "8 * length cs < 2 ^ 64" and r: "r < nr"
  shows "perturb_row epsilon nc r cs =
           Some (take (r * nc) cs @ renormalised (perturbed_row epsilon nc cs r) @
                 drop (r * nc + nc) cs)"
proof -
  let ?row = "drop (r * nc) cs"
  let ?p = "perturbed_row epsilon nc cs r"
  let ?rest = "drop (r * nc + nc) cs"
  have b: "r * nc + nc \<le> length cs" using row_bound [OF len(1) r] .
  have ra: "row_at cs r nc = ?row" using row_at_eq [OF len r] .
  have sm: "size_mul r nc = r * nc" using b len(2) by (simp add: size_mul_small)
  have idx: "size_add (r * nc) c = r * nc + c" if "c < nc" for c
    using that b len(2) by (simp add: size_add_small)
  have loop: "for_each [0..<nc]
          (\<lambda>c row. do { x \<leftarrow> rd row c;
                        wr row c (x + epsilon * hil_det_sign (size_add (r * nc) c)) })
          ?row =
        Some (map (\<lambda>c. ?row ! c + epsilon * hil_det_sign (size_add (r * nc) c)) [0..<nc] @
              drop nc ?row)"
    using b by (intro for_each_pointwise) (simp_all add: rd_def wr_def)
  have p: "map (\<lambda>c. ?row ! c + epsilon * hil_det_sign (size_add (r * nc) c)) [0..<nc] = ?p"
    using b by (simp add: perturbed_row_def cell_def idx hil_det_sign_parity cong: map_cong)
  have rest: "drop nc ?row = ?rest" by (simp add: add.commute)
  have n: "hil_vec_norm (?p @ ?rest) nc = Some (euclid_norm ?p)"
    using hil_vec_norm_prefix [of ?p ?rest] by simp
  have s: "hil_vec_scale_inplace (?p @ ?rest) nc k = Some (map (\<lambda>x. x * k) ?p @ ?rest)" for k
    using hil_vec_scale_prefix [of ?p ?rest k] by simp
  have step: "for_each [0..<nc]
          (\<lambda>c row. do { x \<leftarrow> rd row c;
                        wr row c (x + epsilon * hil_det_sign (size_add (r * nc) c)) })
          ?row = Some (?p @ ?rest)"
    by (simp only: loop p rest)
  show ?thesis
    unfolding perturb_row_def ra sm step
    by (simp add: n s renormalised_def)
qed

lemma perturb_rows_eq:
  assumes len: "nr * nc \<le> length cells" "8 * length cells < 2 ^ 64"
  shows "for_each [0..<nr] (perturb_row epsilon nc) cells = Some (perturbed epsilon nr nc cells)"
proof -
  let ?new = "\<lambda>r. renormalised (perturbed_row epsilon nc cells r)"
  let ?I = "\<lambda>k cs. cs = concat (map ?new [0..<k]) @ drop (k * nc) cells"
  have "\<exists>s'. for_each [0..<nr] (perturb_row epsilon nc) cells = Some s' \<and> ?I nr s'"
  proof (rule for_each_invariant)
    show "?I 0 cells" by simp
  next
    fix k cs assume k: "k < nr" and I: "?I k cs"
    have b: "k * nc + nc \<le> length cells" using row_bound [OF len(1) k] .
    have pl: "length (concat (map ?new [0..<k])) = k * nc" by (rule length_perturbed_prefix)
    have lcs: "length cs = length cells" using I b pl by simp
    have same: "perturbed_row epsilon nc cs k = perturbed_row epsilon nc cells k"
      using I pl b by (simp add: perturbed_row_def cell_def nth_append cong: map_cong)
    have tk: "take (k * nc) cs = concat (map ?new [0..<k])" using I pl by simp
    have dr: "drop (k * nc + nc) cs = drop (Suc k * nc) cells"
      using I pl by (simp add: add.commute)
    have "perturb_row epsilon nc k cs =
            Some (take (k * nc) cs @ renormalised (perturbed_row epsilon nc cs k) @
                  drop (k * nc + nc) cs)"
      using len k unfolding lcs [symmetric] by (rule perturb_row_eq)
    then show "\<exists>s'. perturb_row epsilon nc k cs = Some s' \<and> ?I (Suc k) s'"
      by (simp add: same tk dr)
  qed
  then show ?thesis by (simp add: perturbed_def)
qed

lemma hil_field_perturb_eq:
  assumes r: "field_readable m f" and a: "data (coordinates f) = Some a"
    and c: "field_cells m f = Some cells"
    and ne: "rows (coordinates f) \<noteq> 0" "cols (coordinates f) \<noteq> 0"
  shows "hil_field_perturb m (Some f) epsilon =
           Some (m\<lparr>f64_cells := (f64_cells m)
                   (a \<mapsto> perturbed epsilon (rows (coordinates f)) (cols (coordinates f)) cells)\<rparr>)"
proof -
  from r c have len: "rows (coordinates f) * cols (coordinates f) \<le> length cells"
    "8 * length cells < 2 ^ 64"
    by (auto simp: field_readable_def)
  have ca: "f64_cells m a = Some cells" using a c by (simp add: field_cells_def)
  show ?thesis
    using a ne ca perturb_rows_eq [OF len, of epsilon]
    by (simp add: hil_field_perturb_def Let_def)
qed

section \<open>Properties of the stability diagnostic\<close>

lemma length_perturbed:
  "nr * nc \<le> length cells \<Longrightarrow> length (perturbed epsilon nr nc cells) = length cells"
  by (simp add: perturbed_def length_perturbed_prefix)

lemma alloc_ok_outcomes:
  "outcomes m' = outcomes m \<Longrightarrow> fst (alloc_ok m') = fst (alloc_ok m) \<and>
     outcomes (snd (alloc_ok m')) = outcomes (snd (alloc_ok m))"
  by (auto simp: alloc_ok_def split: list.splits)

lemma alloc_ok_snd_frame:
  "f64_cells (snd (alloc_ok m)) = f64_cells m" "u32_cells (snd (alloc_ok m)) = u32_cells m"
  "brk (snd (alloc_ok m)) = brk m"
  using alloc_ok_frame [of m "fst (alloc_ok m)" "snd (alloc_ok m)"] by simp_all

lemma malloc_f64_cases:
  "malloc_f64 m bytes =
     (if fst (alloc_ok m)
      then (Some (brk m),
            (snd (alloc_ok m))\<lparr>f64_cells := (f64_cells m)(brk m \<mapsto> replicate (bytes div 8) NaN),
                                brk := brk m + 1\<rparr>)
      else (None, snd (alloc_ok m)))"
proof (cases "alloc_ok m")
  case (Pair b m')
  then have "f64_cells m' = f64_cells m" "brk m' = brk m"
    using alloc_ok_frame [of m b m'] by simp_all
  then show ?thesis using Pair by (simp add: malloc_f64_def split: bool.splits)
qed

lemma hil_field_free_live:
  assumes "data (coordinates f) = Some t" "f64_cells m t \<noteq> None"
  shows "\<exists>f'. hil_field_free m (Some f) = Some (m\<lparr>f64_cells := (f64_cells m)(t := None)\<rparr>, f')"
  using assms by (simp add: hil_field_free_def hil_matrix_free_def free_f64_def)

lemma stability_bytes:
  assumes "nr * nc \<le> len" "8 * len < (2::nat) ^ 64" "nc \<noteq> 0"
  shows "size_mul (size_mul 8 nr) nc div 8 = nr * nc"
proof -
  have "nr \<le> nr * nc" using assms(3) by (cases nc) auto
  then have 1: "8 * nr < 2 ^ 64" using assms(1,2) by linarith
  have "8 * (nr * nc) < 2 ^ 64" using assms(1,2) by linarith
  then have 2: "8 * nr * nc < 2 ^ 64" by (simp only: mult.assoc)
  have 3: "size_mul 8 nr = 8 * nr" using 1 by (rule size_mul_small)
  have 4: "size_mul (8 * nr) nc = 8 * nr * nc" using 2 by (rule size_mul_small)
  have "8 * nr * nc div 8 = nr * nc" by (simp add: mult.assoc)
  then show ?thesis by (simp only: 3 4)
qed

lemma alloc_ok_granted:
  "fst (alloc_ok m) = granted (outcomes m) 0" "outcomes (snd (alloc_ok m)) = tl (outcomes m)"
  by (auto simp: alloc_ok_def granted_def split: list.splits)

lemma granted_tl: "granted (tl oks) i = granted oks (Suc i)"
  by (cases oks) (simp_all add: granted_def)

lemma stability_run:
  assumes r: "field_readable m f" and c: "field_cells m f = Some cells"
    and ne: "rows (coordinates f) \<noteq> 0" "cols (coordinates f) \<noteq> 0"
    and wf: "store_wf m"
  shows "\<exists>v m'. hil_epistemic_stability m (Some f) graph = Some (v, m') \<and>
           f64_cells m' = f64_cells m \<and> u32_cells m' = u32_cells m \<and> store_wf m' \<and>
           v = stability_under (outcomes m) cells (rows (coordinates f)) (cols (coordinates f)) \<and>
           (allocations_succeed m \<longrightarrow>
              v = stability_value cells (rows (coordinates f)) (cols (coordinates f)) \<and>
              allocations_succeed m')"
proof -
  have g0: "fst (alloc_ok m) = granted (outcomes m) 0"
    by (simp add: alloc_ok_granted)
  have g1: "fst (alloc_ok (snd (alloc_ok m))) = granted (outcomes m) 1"
    by (simp add: alloc_ok_granted granted_tl)
  have g2: "fst (alloc_ok m'') = granted (outcomes m) 2"
    if "outcomes m'' = outcomes (snd (alloc_ok (snd (alloc_ok m))))" for m''
    using that by (simp add: alloc_ok_granted granted_tl numeral_2_eq_2)
  define nr nc k where "nr = rows (coordinates f)" and "nc = cols (coordinates f)"
    and "k = rows (coordinates f) * cols (coordinates f)"
  from r c obtain a where a: "data (coordinates f) = Some a" "f64_cells m a = Some cells"
    and len: "k \<le> length cells" "8 * length cells < 2 ^ 64"
    by (auto simp: field_readable_def field_cells_def k_def split: option.splits)
  have cond: "(data (coordinates f) = None \<or> rows (coordinates f) = 0 \<or> cols (coordinates f) = 0)
                = False"
    using a ne by simp
  define m1 C0 where "m1 = snd (alloc_ok m)"
    and "C0 = (if fst (alloc_ok m) then coherence_value cells nr nc else 0)"
  have fr1: "f64_cells m1 = f64_cells m" "u32_cells m1 = u32_cells m" "brk m1 = brk m"
    by (simp_all add: m1_def alloc_ok_snd_frame)
  have s1: "hil_field_coherence m (Some f) = Some (C0, m1)"
    using hil_field_coherence_eq [OF r ne c] by (simp add: C0_def m1_def nr_def nc_def)
  define B where "B = size_mul (size_mul 8 (rows (coordinates f))) (cols (coordinates f))"
  have bytes: "B div 8 = k"
    unfolding B_def k_def using len ne(2) unfolding k_def by (rule stability_bytes)
  define t where "t = brk m"
  have t_free: "f64_cells m t = None" using wf by (simp add: store_wf_def t_def)
  have ta: "t \<noteq> a" using t_free a by auto
  define m2' where "m2' = snd (alloc_ok m1)"
  have fr2': "f64_cells m2' = f64_cells m" "u32_cells m2' = u32_cells m" "brk m2' = brk m"
    by (simp_all add: m2'_def alloc_ok_snd_frame fr1)
  show ?thesis
  proof (cases "fst (alloc_ok m1)")
    case False
    then have s2: "malloc_f64 m1 B = (None, m2')"
      by (simp add: malloc_f64_cases m2'_def)
    have "hil_epistemic_stability m (Some f) graph = Some (0, m2')"
      by (simp add: hil_epistemic_stability_def s1 Let_def cond s2 flip: B_def)
    moreover have "\<not> allocations_succeed m"
      using False alloc_ok_succeeds [of m] alloc_ok_succeeds [of m1] unfolding m1_def by blast
    moreover have "store_wf m2'"
      using wf by (simp add: store_wf_def fr2')
    moreover have "stability_under (outcomes m) cells (rows (coordinates f)) (cols (coordinates f)) = 0"
      using False g1 by (simp add: stability_under_def m1_def)
    ultimately show ?thesis using fr2' by (intro exI [of _ 0] exI [of _ m2']) simp
  next
    case True
    define m2 where
      "m2 = m2'\<lparr>f64_cells := (f64_cells m1)(brk m1 \<mapsto> replicate (B div 8) NaN),
                 brk := brk m1 + 1\<rparr>"
    have s2: "malloc_f64 m1 B = (Some t, m2)"
      using True by (simp add: malloc_f64_cases m2_def m2'_def t_def fr1)
    have fr2: "f64_cells m2 = (f64_cells m)(t \<mapsto> replicate k NaN)" "u32_cells m2 = u32_cells m"
      "brk m2 = Suc (brk m)" "outcomes m2 = outcomes m2'"
      by (simp_all add: m2_def fr1 fr2' bytes t_def)
    define tmp where "tmp = \<lparr>coordinates = \<lparr>data = Some t, rows = rows (coordinates f),
                                            cols = cols (coordinates f)\<rparr>\<rparr>"
    have tmp: "data (coordinates tmp) = Some t" "rows (coordinates tmp) = nr"
      "cols (coordinates tmp) = nc"
      by (simp_all add: tmp_def nr_def nc_def)
    define m3 where "m3 = m2\<lparr>f64_cells := (f64_cells m2)
                        (t \<mapsto> take (B div 8) cells @ drop (B div 8) (replicate k NaN))\<rparr>"
    have s3: "memcpy_f64 m2 (Some t) (data (coordinates f)) B = Some m3"
      using a ta len by (simp add: memcpy_f64_def bytes fr2 m3_def)
    have fr3: "f64_cells m3 = (f64_cells m)(t \<mapsto> take k cells)" "u32_cells m3 = u32_cells m"
      "brk m3 = Suc (brk m)" "outcomes m3 = outcomes m2'"
      by (simp_all add: m3_def fr2 bytes)
    have lt: "length (take k cells) = k" using len by simp
    have k8: "8 * k < 2 ^ 64" using len by linarith
    have c3: "field_cells m3 tmp = Some (take k cells)"
      by (simp add: field_cells_def tmp fr3)
    have rc: "rows (coordinates tmp) * cols (coordinates tmp) = k"
      by (simp add: tmp nr_def nc_def k_def)
    have "rows (coordinates tmp) * cols (coordinates tmp) \<le> length (take k cells) \<and>
          8 * length (take k cells) < 2 ^ 64"
      unfolding rc lt using k8 by simp
    then have r3: "field_readable m3 tmp"
      by (simp only: field_readable_def c3 option.case)
    define p where "p = perturbed stability_eps nr nc (take k cells)"
    define m4 where "m4 = m3\<lparr>f64_cells := (f64_cells m3)(t \<mapsto> p)\<rparr>"
    have ne': "rows (coordinates tmp) \<noteq> 0" "cols (coordinates tmp) \<noteq> 0"
      using ne by (simp_all add: tmp nr_def nc_def)
    have s4: "hil_field_perturb m3 (Some tmp) stability_eps = Some m4"
      using hil_field_perturb_eq [OF r3 tmp(1) c3 ne', of stability_eps]
      by (simp add: m4_def p_def tmp)
    have fr4: "f64_cells m4 = (f64_cells m)(t \<mapsto> p)" "u32_cells m4 = u32_cells m"
      "brk m4 = Suc (brk m)" "outcomes m4 = outcomes m2'"
      by (simp_all add: m4_def fr3)
    have lp: "length p = k"
      unfolding p_def using lt by (simp add: length_perturbed nr_def nc_def k_def)
    have c4: "field_cells m4 tmp = Some p"
      by (simp add: field_cells_def tmp fr4)
    have "rows (coordinates tmp) * cols (coordinates tmp) \<le> length p \<and>
          8 * length p < 2 ^ 64"
      unfolding rc lp using k8 by simp
    then have r4: "field_readable m4 tmp"
      by (simp only: field_readable_def c4 option.case)
    define m5 C1 where "m5 = snd (alloc_ok m4)"
      and "C1 = (if fst (alloc_ok m4) then coherence_value p nr nc else 0)"
    have s5: "hil_field_coherence m4 (Some tmp) = Some (C1, m5)"
      using hil_field_coherence_eq [OF r4 ne' c4] by (simp add: C1_def m5_def tmp)
    have fr5: "f64_cells m5 = (f64_cells m)(t \<mapsto> p)" "u32_cells m5 = u32_cells m"
      "brk m5 = Suc (brk m)"
      by (simp_all add: m5_def alloc_ok_snd_frame fr4)
    have live5: "f64_cells m5 t \<noteq> None" by (simp add: fr5)
    define m6 where "m6 = m5\<lparr>f64_cells := (f64_cells m5)(t := None)\<rparr>"
    from hil_field_free_live [OF tmp(1) live5] obtain tmp' where
      s6: "hil_field_free m5 (Some tmp) = Some (m6, tmp')" unfolding m6_def by auto
    have run: "hil_epistemic_stability m (Some f) graph =
                 Some (ddiv (fabs (C1 - C0)) stability_eps, m6)"
      by (simp add: hil_epistemic_stability_def s1 Let_def cond s2 s3 s4 s5 s6
          flip: B_def tmp_def)
    have f6: "f64_cells m6 = f64_cells m"
      using t_free by (simp add: m6_def fr5 fun_eq_iff)
    have u6: "u32_cells m6 = u32_cells m"
      by (simp add: m6_def fr5)
    have wf6: "store_wf m6"
      using wf by (simp add: store_wf_def m6_def fr5 f6 [unfolded m6_def])
    have succ: "ddiv (fabs (C1 - C0)) stability_eps = stability_value cells nr nc \<and>
                allocations_succeed m6" if all: "allocations_succeed m"
    proof -
      have 1: "fst (alloc_ok m)" "allocations_succeed m1"
        using alloc_ok_succeeds [OF all] by (auto simp: m1_def)
      have 2: "allocations_succeed m2'" using alloc_ok_succeeds [OF 1(2)] by (simp add: m2'_def)
      have 4: "allocations_succeed m4" using 2 by (simp add: allocations_succeed_def fr4)
      have 5: "fst (alloc_ok m4)" "allocations_succeed m5"
        using alloc_ok_succeeds [OF 4] by (auto simp: m5_def)
      have 6: "allocations_succeed m6" using 5(2) by (simp add: allocations_succeed_def m6_def)
      show ?thesis using 1(1) 5(1) 6
        by (simp add: stability_value_def C0_def C1_def p_def k_def nr_def nc_def)
    qed
    have under: "ddiv (fabs (C1 - C0)) stability_eps =
                   stability_under (outcomes m) cells (rows (coordinates f)) (cols (coordinates f))"
    proof -
      have "outcomes m4 = outcomes (snd (alloc_ok (snd (alloc_ok m))))"
        by (simp add: fr4 m2'_def m1_def)
      then have "fst (alloc_ok m4) = granted (outcomes m) 2" by (rule g2)
      moreover have "granted (outcomes m) 1" using True g1 by (simp add: m1_def)
      ultimately show ?thesis
        using g0 by (simp add: stability_under_def C0_def C1_def p_def k_def nr_def nc_def)
    qed
    show ?thesis
    proof (intro exI conjI impI)
      show "hil_epistemic_stability m (Some f) graph =
              Some (ddiv (fabs (C1 - C0)) stability_eps, m6)" by (rule run)
      show "f64_cells m6 = f64_cells m" by (rule f6)
      show "u32_cells m6 = u32_cells m" by (rule u6)
      show "store_wf m6" by (rule wf6)
      show "ddiv (fabs (C1 - C0)) stability_eps =
              stability_under (outcomes m) cells (rows (coordinates f)) (cols (coordinates f))"
        by (rule under)
      assume all: "allocations_succeed m"
      show "ddiv (fabs (C1 - C0)) stability_eps =
              stability_value cells (rows (coordinates f)) (cols (coordinates f))"
        using succ [OF all] by (simp add: nr_def nc_def)
      show "allocations_succeed m6" using succ [OF all] by simp
    qed
  qed
qed

text \<open>
  C6. In a store whose addresses from \<open>brk\<close> on are unused, for a field that is null,
  empty or readable, \<^verbatim>\<open>hil_epistemic_stability\<close> returns and leaves every buffer of the
  store as it was: the coordinates of the caller's field are the same cells before and
  after the call. The field structure is passed by a pointer to \<^verbatim>\<open>const\<close> and is not
  part of the result, so \<open>rows\<close> and \<open>cols\<close> are untouched.
\<close>

theorem stability_leaves_store:
  assumes "store_wf m"
    and "case field of None \<Rightarrow> True
         | Some f \<Rightarrow> data (coordinates f) = None \<or> rows (coordinates f) = 0 \<or>
                    cols (coordinates f) = 0 \<or> field_readable m f"
  shows "\<exists>v m'. hil_epistemic_stability m field graph = Some (v, m') \<and>
           f64_cells m' = f64_cells m \<and> u32_cells m' = u32_cells m"
proof (cases field)
  case None
  then show ?thesis by (simp add: hil_epistemic_stability_def)
next
  case (Some f)
  show ?thesis
  proof (cases "data (coordinates f) = None \<or> rows (coordinates f) = 0 \<or> cols (coordinates f) = 0")
    case True
    then have "hil_epistemic_stability m (Some f) graph = Some (0, m)"
      using hil_field_coherence_empty [OF True, of m]
      by (simp add: hil_epistemic_stability_def Let_def)
    then show ?thesis using Some by simp
  next
    case False
    with assms(2) Some have r: "field_readable m f" by auto
    then obtain cells where c: "field_cells m f = Some cells"
      by (auto simp: field_readable_def split: option.splits)
    from False have ne: "rows (coordinates f) \<noteq> 0" "cols (coordinates f) \<noteq> 0" by simp_all
    from stability_run [OF r c ne assms(1), of graph] show ?thesis
      using Some by blast
  qed
qed

lemma mem1_wf: "store_wf mem1"
  by (auto simp: store_wf_def mem1_def)

lemma mem1_succeed: "allocations_succeed mem1"
  by (simp add: allocations_succeed_def mem1_def)

theorem stability_leaves_store_witness:
  "store_wf mem1 \<and> field_readable mem1 field1 \<and>
   (\<exists>v m'. hil_epistemic_stability mem1 (Some field1) (Some graph0) = Some (v, m') \<and>
      f64_cells m' = f64_cells mem1 \<and> u32_cells m' = u32_cells mem1 \<and>
      f64_cells m' 10 = Some [Fin 3, Fin 4, Fin 3, Fin 4])"
proof -
  have "case Some field1 of None \<Rightarrow> True
         | Some f \<Rightarrow> data (coordinates f) = None \<or> rows (coordinates f) = 0 \<or>
                    cols (coordinates f) = 0 \<or> field_readable mem1 f"
    using field1_cells(1) by simp
  from stability_leaves_store [OF mem1_wf this, of "Some graph0"]
  obtain v m' where "hil_epistemic_stability mem1 (Some field1) (Some graph0) = Some (v, m')"
    "f64_cells m' = f64_cells mem1" "u32_cells m' = u32_cells mem1" by blast
  moreover have "f64_cells mem1 10 = Some [Fin 3, Fin 4, Fin 3, Fin 4]"
    by (simp add: mem1_def)
  ultimately show ?thesis using mem1_wf field1_cells(1) by auto
qed

section \<open>Coherence and stability of a field of one coordinate\<close>














section \<open>Determinism of the stability diagnostic\<close>










section \<open>Properties of the component count\<close>





lemma nbrs_Nil [simp]: "nbrs n [] v = []"
  by (simp add: nbrs_def)







lemma off_0 [simp]: "off n ends 0 = 0"
  by (simp add: off_def)








lemma in_nbrs_iff:
  "u \<in> set (nbrs n ends v) \<longleftrightarrow>
     (\<exists>(s, d) \<in> set ends. unat s < n \<and> unat d < n \<and> (unat s = v \<and> u = d \<or> unat d = v \<and> u = s))"
  by (auto simp: nbrs_def contrib_def split: if_splits)

lemma nbrs_in_range: "u \<in> set (nbrs n ends v) \<Longrightarrow> unat u < n \<and> v < n"
  by (auto simp: in_nbrs_iff)



lemma adj_rel_range: "(v, w) \<in> adj_rel n ends \<Longrightarrow> v < n \<and> w < n"
  by (auto simp: adj_rel_def dest: nbrs_in_range)













































end
